theory Spec2Isabelle
  imports Complex_Main "HOL-Library.Sublist" "HOL-Library.Log_Nat"
begin

section \<open>Python string primitives used by the program\<close>

text \<open>
  Python's \<^verbatim>\<open>sub in s\<close> on strings: \<open>sub\<close> occurs in \<open>s\<close> as a contiguous
  substring.
\<close>

fun py_in :: "string \<Rightarrow> string \<Rightarrow> bool" where
  "py_in sub [] = (sub = [])"
| "py_in sub (c # cs) = (prefix sub (c # cs) \<or> py_in sub cs)"

text \<open>
  Python's \<^verbatim>\<open>s.replace(old, new)\<close>: every non-overlapping occurrence of \<open>old\<close>,
  found scanning from the left, is replaced by \<open>new\<close>. For the empty \<open>old\<close> Python
  inserts \<open>new\<close> before every character and at the end.
\<close>

fun replace_from :: "string \<Rightarrow> string \<Rightarrow> string \<Rightarrow> string" where
  "replace_from old new [] = []"
| "replace_from old new (c # cs) =
     (if prefix old (c # cs) then new @ replace_from old new (drop (length old - 1) cs)
      else c # replace_from old new cs)"

definition py_replace :: "string \<Rightarrow> string \<Rightarrow> string \<Rightarrow> string" where
  "py_replace old new s =
     (if old = [] then new @ concat (map (\<lambda>c. c # new) s) else replace_from old new s)"

section \<open>Body rendering: \<^verbatim>\<open>load_html_content\<close>\<close>

text \<open>
  The files that \<^verbatim>\<open>open(file_path, "r", encoding="utf-8")\<close> and \<^verbatim>\<open>file.read()\<close> see:
  each listed path has either the text of the exception that opening or reading it raises
  (\<open>Inl\<close>) or its content (\<open>Inr\<close>); a path that is not listed does not exist, and
  \<^verbatim>\<open>open\<close> raises \<^verbatim>\<open>FileNotFoundError\<close> with Python's text for it, which ends with the
  \<^verbatim>\<open>repr\<close> of the path. \<open>py_repr\<close> is \<^verbatim>\<open>repr\<close> on ASCII text: between single quotes, or
  between double quotes when the text has a single quote and no double quote; the quote in
  use and the backslash are escaped, tab, line feed and carriage return are written
  \<^verbatim>\<open>\t\<close>, \<^verbatim>\<open>\n\<close>, \<^verbatim>\<open>\r\<close>, the other control characters \<^verbatim>\<open>\xhh\<close>.

  \<^verbatim>\<open>load_html_content\<close> is the same function in both versions of the program. Salutation
  and signature are strings here; the \<^verbatim>\<open>except Exception\<close> clause then only ever sees
  the errors of opening and reading the file.
\<close>

definition hex_digit :: "nat \<Rightarrow> char" where
  "hex_digit d = (if d < 10 then char_of (48 + d) else char_of (87 + d))"

definition repr_char :: "char \<Rightarrow> char \<Rightarrow> string" where
  "repr_char quote c =
     (let n = (of_char c :: nat)
      in if c = quote \<or> c = CHR 0x5C then [CHR 0x5C, c]
         else if n = 9 then [CHR 0x5C, CHR ''t'']
         else if n = 10 then [CHR 0x5C, CHR ''n'']
         else if n = 13 then [CHR 0x5C, CHR ''r'']
         else if n < 32 \<or> n = 127 then [CHR 0x5C, CHR ''x'', hex_digit (n div 16), hex_digit (n mod 16)]
         else [c])"

definition py_repr :: "string \<Rightarrow> string" where
  "py_repr s =
     (let quote = (if CHR 0x27 \<in> set s \<and> CHR 0x22 \<notin> set s then CHR 0x22 else CHR 0x27)
      in quote # concat (map (repr_char quote) s) @ [quote])"

type_synonym files = "(string \<times> (string + string)) list"

definition open_read :: "files \<Rightarrow> string \<Rightarrow> string + string" where
  "open_read fs file_path =
     (case map_of fs file_path of
        None \<Rightarrow> Inl (''[Errno 2] No such file or directory: '' @ py_repr file_path)
      | Some r \<Rightarrow> r)"

definition load_html_content :: "files \<Rightarrow> string \<Rightarrow> string \<Rightarrow> string \<Rightarrow> string" where
  "load_html_content fs file_path salutation signature =
     (case open_read fs file_path of
        Inl e \<Rightarrow> ''Error loading HTML file: '' @ e
      | Inr content \<Rightarrow>
          (if py_in ''{sal}'' content \<or> py_in ''{signature}'' content
           then py_replace ''{signature}'' signature (py_replace ''{sal}'' salutation content)
           else content @ ''<br><br>Thanks & Regards,<br>'' @ signature))"

section \<open>Python integer and float primitives used by the program\<close>

text \<open>\<^verbatim>\<open>str(n)\<close> for an integer: decimal digits, with a minus sign for negatives.\<close>

definition digit_char :: "nat \<Rightarrow> char" where
  "digit_char d = char_of (48 + d)"

fun str_nat :: "nat \<Rightarrow> string" where
  "str_nat n = (if n < 10 then [digit_char n] else str_nat (n div 10) @ [digit_char (n mod 10)])"

declare str_nat.simps [simp del]

definition str_int :: "int \<Rightarrow> string" where
  "str_int i = (if i < 0 then CHR ''-'' # str_nat (nat (- i)) else str_nat (nat i))"

text \<open>
  \<^verbatim>\<open>s.strip()\<close> and \<^verbatim>\<open>int(s)\<close> on ASCII text. White space is what \<^verbatim>\<open>str.isspace\<close>
  accepts below 128: tab, line feed, vertical tab, form feed, carriage return, the four
  separators 28 to 31, and space. \<^verbatim>\<open>int\<close> strips white space itself, takes an optional
  sign, then decimal digits, where single underscores may stand between digits; anything
  else is a \<^verbatim>\<open>ValueError\<close>, here \<open>None\<close>. Two things of Python are not in this model:
  white space and digits beyond ASCII (a no-break space before the digits is stripped by
  Python and makes \<open>py_int\<close> fail), and the limit of 4300 digits that newer versions of
  CPython put on \<^verbatim>\<open>int\<close> and \<^verbatim>\<open>str\<close>. What \<^verbatim>\<open>save_checkpoint\<close> writes is a row number in
  ASCII digits.
\<close>

definition is_space :: "char \<Rightarrow> bool" where
  "is_space c = (let n = (of_char c :: nat) in (9 \<le> n \<and> n \<le> 13) \<or> (28 \<le> n \<and> n \<le> 32))"

definition py_strip :: "string \<Rightarrow> string" where
  "py_strip s = rev (dropWhile is_space (rev (dropWhile is_space s)))"

definition is_digit :: "char \<Rightarrow> bool" where
  "is_digit c = (let n = (of_char c :: nat) in 48 \<le> n \<and> n \<le> 57)"

definition digit_val :: "char \<Rightarrow> nat" where
  "digit_val c = of_char c - 48"

fun digits_val :: "nat \<Rightarrow> string \<Rightarrow> nat option" where
  "digits_val acc [] = Some acc"
| "digits_val acc [c] = (if is_digit c then Some (10 * acc + digit_val c) else None)"
| "digits_val acc (c # d # cs) =
     (if is_digit c then digits_val (10 * acc + digit_val c) (d # cs)
      else if c = CHR ''_'' \<and> is_digit d then digits_val (10 * acc + digit_val d) cs
      else None)"

definition parse_digits :: "string \<Rightarrow> nat option" where
  "parse_digits s =
     (case s of [] \<Rightarrow> None
      | c # cs \<Rightarrow> if is_digit c then digits_val (digit_val c) cs else None)"

definition py_int :: "string \<Rightarrow> int option" where
  "py_int s =
     (case py_strip s of
        [] \<Rightarrow> None
      | c # cs \<Rightarrow>
          if c = CHR ''-'' then map_option (\<lambda>n. - int n) (parse_digits cs)
          else if c = CHR ''+'' then map_option int (parse_digits cs)
          else map_option int (parse_digits (c # cs)))"

text \<open>
  Python floats are IEEE binary64. \<open>round_binary64 q\<close> is the double nearest to the exact
  value \<open>q\<close>, ties to the even significand of 53 bits: what \<^verbatim>\<open>a / b\<close> on integers and
  \<^verbatim>\<open>x * y\<close> on floats return for the exact quotient and product. Overflow and subnormal
  numbers are left out: the magnitudes met here (a percentage, a sleep length in
  nanoseconds) lie far inside the normal range.
\<close>

definition pow2 :: "int \<Rightarrow> rat" where
  "pow2 e = (if 0 \<le> e then 2 ^ nat e else 1 / 2 ^ nat (- e))"

definition expo :: "rat \<Rightarrow> int" where
  "expo q =
     (let (a, b) = quotient_of q; e0 = bitlen a - bitlen b
      in if q < pow2 e0 then e0 - 1 else e0)"

definition round_half_even :: "rat \<Rightarrow> int" where
  "round_half_even x =
     (let f = \<lfloor>x\<rfloor>; d = x - of_int f
      in if d < 1 / 2 then f else if 1 / 2 < d then f + 1 else if even f then f else f + 1)"

definition round_binary64 :: "rat \<Rightarrow> rat" where
  "round_binary64 q =
     (if q = 0 then 0
      else let e = expo \<bar>q\<bar> - 52 in of_int (round_half_even (q / pow2 e)) * pow2 e)"

text \<open>\<^verbatim>\<open>int(x)\<close> on a float truncates toward zero.\<close>

definition int_of_float :: "rat \<Rightarrow> int" where
  "int_of_float x = (if 0 \<le> x then \<lfloor>x\<rfloor> else \<lceil>x\<rceil>)"

datatype error = OSError string | ValueError string | ZeroDivisionError | OverflowError

text \<open>
  The progress value of the run loop, \<^verbatim>\<open>int(((i + 1) / total) * 100)\<close>: a true division
  of integers, a float product, a truncation.
\<close>

definition progress_percent :: "nat \<Rightarrow> nat \<Rightarrow> error + int" where
  "progress_percent i tot =
     (if tot = 0 then Inl ZeroDivisionError
      else Inr (int_of_float (round_binary64 (round_binary64 (of_nat (i + 1) / of_nat tot) * 100))))"

section \<open>Data of the dispatch engine\<close>

text \<open>
  One row of the contact sheet. \<^verbatim>\<open>run\<close> reads the seven required columns of each row;
  the cells are strings here. The sheet itself is what \<^verbatim>\<open>pd.read_excel\<close> returns: its
  column names and its rows, in order; the row labels of \<^verbatim>\<open>df.iterrows()\<close> are the
  positions \<open>0, 1, 2, \<dots>\<close>.
\<close>

record row =
  from_email :: string
  password :: string
  sal :: string
  signature :: string
  to_email :: string
  subject :: string
  html_file :: string

record dataframe =
  columns :: "string list"
  rows :: "row list"

text \<open>The MIME message built for a row: three headers and the HTML part.\<close>

record message =
  msg_subject :: string
  msg_from :: string
  msg_to :: string
  msg_body :: string

text \<open>An entry of \<^verbatim>\<open>self.failed_emails\<close>, a dict with four keys.\<close>

record failed_email =
  fe_from_email :: string
  fe_to_email :: string
  fe_subject :: string
  fe_error_message :: string

text \<open>
  The Qt signals of the worker. The line \<^verbatim>\<open>Waiting for {self.delay} seconds before next
  email...\<close> prints a float; it is kept as a signal of its own that carries the delay.
\<close>

datatype signal =
  Log string
| Log_waiting rat
| Progress int
| Finished
| Total_contacts nat
| Emails_sent nat

text \<open>
  What the worker does to the outside, in the order it happens: a signal, the reading of a
  body template, one SMTP session (sender, password, recipient, message), a probe of the
  network, a sleep, a write of the checkpoint file, a write of the failure report.
\<close>

datatype action =
  Emit signal
| Open_html string
| Smtp string string string message
| Check_network
| Sleep rat
| Save_checkpoint int
| Write_report "failed_email list"

text \<open>
  The checkpoint file \<^verbatim>\<open>progress_checkpoint.txt\<close>: absent (\<^verbatim>\<open>os.path.exists\<close> is false),
  present but \<^verbatim>\<open>open\<close> raises, opened but \<^verbatim>\<open>read\<close> raises, or present with a content.
\<close>

datatype ckfile =
  Ck_absent
| Ck_open_error string
| Ck_read_error string
| Ck_content string

text \<open>
  The state of a run. The first fields are the files. The lists are the answers of the
  environment, one for each time the worker asks, in order: the value of \<^verbatim>\<open>self._pause\<close>
  and of \<^verbatim>\<open>self._running\<close> at each read (the host sets them from another thread), the
  outcome of each SMTP session (\<open>None\<close> when the message was accepted, else the text of the
  exception), the result of each \<^verbatim>\<open>check_network()\<close>, the outcome of each write of the
  checkpoint (\<open>None\<close> when written, else the text of the exception and what is left of the
  file) and of the report. Then the worker's own variables and the actions so far. The
  trace holds what \<^verbatim>\<open>run\<close> does; the two lines that \<^verbatim>\<open>pause\<close> and \<^verbatim>\<open>resume\<close> log
  are emitted by the host that calls them.
\<close>

record world =
  excel :: "string + dataframe"
  html_files :: files
  checkpoint_file :: ckfile
  pause_reads :: "bool list"
  running_reads :: "bool list"
  smtp_results :: "string option list"
  network_results :: "bool list"
  save_results :: "(string \<times> ckfile) option list"
  report_results :: "string option list"
  failed_emails :: "failed_email list"
  sent_count :: nat
  trace :: "action list"

text \<open>
  A call returns a value, raises, or is still waiting for the environment when its answers
  run out. Every outcome carries the state reached.
\<close>

datatype 'a result = Done 'a world | Raised error world | Pending world

fun state_of :: "'a result \<Rightarrow> world" where
  "state_of (Done x w) = w"
| "state_of (Raised e w) = w"
| "state_of (Pending w) = w"

definition act :: "action \<Rightarrow> world \<Rightarrow> world" where
  "act a w = w\<lparr>trace := trace w @ [a]\<rparr>"

definition emit :: "signal \<Rightarrow> world \<Rightarrow> world" where
  "emit s w = act (Emit s) w"

section \<open>Checkpoint functions\<close>

definition save_checkpoint :: "int \<Rightarrow> world \<Rightarrow> unit result" where
  "save_checkpoint index w =
     (case save_results w of
        [] \<Rightarrow> Pending w
      | r # rs \<Rightarrow>
          (let w1 = act (Save_checkpoint index) (w\<lparr>save_results := rs\<rparr>)
           in case r of
                None \<Rightarrow> Done () (w1\<lparr>checkpoint_file := Ck_content (str_int index)\<rparr>)
              | Some (e, left) \<Rightarrow> Raised (OSError e) (w1\<lparr>checkpoint_file := left\<rparr>)))"

text \<open>
  In \<^verbatim>\<open>load_checkpoint\<close> the \<^verbatim>\<open>try\<close> stands inside the \<^verbatim>\<open>with open(...)\<close>: an exception of
  \<^verbatim>\<open>read\<close>, \<^verbatim>\<open>strip\<close> or \<^verbatim>\<open>int\<close> gives 0, an exception of \<^verbatim>\<open>open\<close> leaves the function.
\<close>

definition load_checkpoint :: "ckfile \<Rightarrow> error + int" where
  "load_checkpoint f =
     (case f of
        Ck_absent \<Rightarrow> Inr 0
      | Ck_open_error e \<Rightarrow> Inl (OSError e)
      | Ck_read_error e \<Rightarrow> Inr 0
      | Ck_content s \<Rightarrow> (case py_int (py_strip s) of Some n \<Rightarrow> Inr n | None \<Rightarrow> Inr 0))"

section \<open>Network probe, SMTP session, control flags\<close>

definition check_network :: "world \<Rightarrow> bool result" where
  "check_network w =
     (case network_results w of
        [] \<Rightarrow> Pending w
      | b # bs \<Rightarrow> Done b (act Check_network (w\<lparr>network_results := bs\<rparr>)))"

definition smtp_send :: "string \<Rightarrow> string \<Rightarrow> string \<Rightarrow> message \<Rightarrow> world \<Rightarrow> string option result" where
  "smtp_send sender pw recipient msg w =
     (case smtp_results w of
        [] \<Rightarrow> Pending w
      | r # rs \<Rightarrow> Done r (act (Smtp sender pw recipient msg) (w\<lparr>smtp_results := rs\<rparr>)))"

definition read_pause :: "world \<Rightarrow> bool result" where
  "read_pause w =
     (case pause_reads w of [] \<Rightarrow> Pending w | p # ps \<Rightarrow> Done p (w\<lparr>pause_reads := ps\<rparr>))"

definition read_running :: "world \<Rightarrow> bool result" where
  "read_running w =
     (case running_reads w of [] \<Rightarrow> Pending w | r # rs \<Rightarrow> Done r (w\<lparr>running_reads := rs\<rparr>))"

text \<open>
  \<^verbatim>\<open>time.sleep(self.delay)\<close>, as CPython 3.7 and later does it on a 64-bit POSIX
  platform. The length, a float, is turned into nanoseconds: a float product with
  \<open>10\<^sup>9\<close>, rounded away from zero to an integer. A number of nanoseconds outside the signed
  64-bit range raises \<^verbatim>\<open>OverflowError\<close> (a delay of \<open>10\<^sup>1\<^sup>0\<close> seconds does), a negative one
  raises \<^verbatim>\<open>ValueError\<close>. The window passes \<^verbatim>\<open>float(text)\<close> unchecked; the delay is a finite
  float here (\<^verbatim>\<open>inf\<close> raises \<^verbatim>\<open>OverflowError\<close> and \<^verbatim>\<open>nan\<close> raises \<^verbatim>\<open>ValueError\<close> in the program).
  The two fixed sleeps of 0.1 and 5 seconds are in range and are plain actions.
\<close>

definition round_away :: "rat \<Rightarrow> int" where
  "round_away x = (if 0 \<le> x then \<lceil>x\<rceil> else \<lfloor>x\<rfloor>)"

definition sleep_length_ns :: "rat \<Rightarrow> int" where
  "sleep_length_ns d = round_away (round_binary64 (d * 10 ^ 9))"

definition time_sleep :: "rat \<Rightarrow> world \<Rightarrow> unit result" where
  "time_sleep d w =
     (let ns = sleep_length_ns d
      in if ns < - (2 ^ 63) \<or> 2 ^ 63 \<le> ns then Raised OverflowError w
         else if ns < 0 then Raised (ValueError ''sleep length must be non-negative'') w
         else Done () (act (Sleep d) w))"

text \<open>\<^verbatim>\<open>while self._pause: time.sleep(0.1)\<close>\<close>

function wait_pause :: "world \<Rightarrow> unit result" where
  "wait_pause w =
     (case read_pause w of
        Pending w1 \<Rightarrow> Pending w1
      | Raised e w1 \<Rightarrow> Raised e w1
      | Done p w1 \<Rightarrow> if p then wait_pause (act (Sleep (1 / 10)) w1) else Done () w1)"
  by pat_completeness auto
termination
  by (relation "measure (\<lambda>w. length (pause_reads w))")
     (auto simp: read_pause_def act_def split: list.splits)

text \<open>\<^verbatim>\<open>while not check_network(): time.sleep(5)\<close>\<close>

function wait_network :: "world \<Rightarrow> unit result" where
  "wait_network w =
     (case check_network w of
        Pending w1 \<Rightarrow> Pending w1
      | Raised e w1 \<Rightarrow> Raised e w1
      | Done up w1 \<Rightarrow> if \<not> up then wait_network (act (Sleep 5) w1) else Done () w1)"
  by pat_completeness auto
termination
  by (relation "measure (\<lambda>w. length (network_results w))")
     (auto simp: check_network_def act_def split: list.splits)

declare wait_pause.simps [simp del] wait_network.simps [simp del]

lemma wait_pause_smtp_results:
  "wait_pause w = Done u w' \<Longrightarrow> smtp_results w' = smtp_results w"
proof (induction w rule: wait_pause.induct)
  case (1 w)
  then show ?case
    by (subst (asm) (2) wait_pause.simps)
       (auto simp: read_pause_def act_def split: list.splits if_splits)
qed

lemma wait_network_smtp_results:
  "wait_network w = Done u w' \<Longrightarrow> smtp_results w' = smtp_results w"
proof (induction w rule: wait_network.induct)
  case (1 w)
  then show ?case
    by (subst (asm) (2) wait_network.simps)
       (auto simp: check_network_def act_def split: list.splits if_splits)
qed

section \<open>The send-retry loop\<close>

text \<open>
  \<^verbatim>\<open>while not email_sent: ...\<close>, the same text in both versions. An exception of the SMTP
  session is followed by a probe of the network: unreachable, the worker waits for the
  network and tries the same message again; reachable, it records the failure and leaves
  the loop.
\<close>

function send_loop :: "row \<Rightarrow> message \<Rightarrow> world \<Rightarrow> unit result" where
  "send_loop r msg w =
     (case wait_pause w of
        Pending w1 \<Rightarrow> Pending w1
      | Raised e w1 \<Rightarrow> Raised e w1
      | Done u w1 \<Rightarrow>
          (case smtp_send (from_email r) (password r) (to_email r) msg w1 of
             Pending w2 \<Rightarrow> Pending w2
           | Raised e w2 \<Rightarrow> Raised e w2
           | Done None w2 \<Rightarrow>
               (let w3 = emit (Log ''Email sent successfully!'') w2;
                    w4 = w3\<lparr>sent_count := sent_count w3 + 1\<rparr>
                in Done () (emit (Emails_sent (sent_count w4)) w4))
           | Done (Some error_message) w2 \<Rightarrow>
               (case check_network w2 of
                  Pending w3 \<Rightarrow> Pending w3
                | Raised e w3 \<Rightarrow> Raised e w3
                | Done up w3 \<Rightarrow>
                    if \<not> up then
                      (case wait_network
                              (emit (Log ''Network disconnected. Pausing email sending process. Waiting for network to be restored...'') w3) of
                         Pending w4 \<Rightarrow> Pending w4
                       | Raised e w4 \<Rightarrow> Raised e w4
                       | Done u' w4 \<Rightarrow>
                           send_loop r msg
                             (emit (Log ''Network restored. Resuming email sending process.'') w4))
                    else
                      (let w4 = emit (Log (''Failed to send email to '' @ to_email r @ '': '' @ error_message)) w3
                       in Done () (w4\<lparr>failed_emails := failed_emails w4 @
                            [\<lparr>fe_from_email = from_email r, fe_to_email = to_email r,
                              fe_subject = subject r, fe_error_message = error_message\<rparr>]\<rparr>)))))"
  by pat_completeness auto
termination
proof (relation "measure (\<lambda>(r, msg, w). length (smtp_results w))")
  show "wf (measure (\<lambda>(r, msg, w). length (smtp_results w)))"
    by simp
next
  fix r :: row and msg :: message and w w1 w2 w3 w4 :: world
    and u u' :: unit and res :: "string option" and error_message :: string and up :: bool
  assume 1: "wait_pause w = Done u w1"
    and 2: "smtp_send (from_email r) (password r) (to_email r) msg w1 = Done res w2"
    and 3: "check_network w2 = Done up w3"
    and 4: "wait_network
              (emit (Log ''Network disconnected. Pausing email sending process. Waiting for network to be restored...'') w3)
            = Done u' w4"
  have "smtp_results w1 = smtp_results w"
    using 1 by (rule wait_pause_smtp_results)
  moreover have "length (smtp_results w2) < length (smtp_results w1)"
    using 2 by (auto simp: smtp_send_def act_def split: list.splits)
  moreover have "smtp_results w3 = smtp_results w2"
    using 3 by (auto simp: check_network_def act_def split: list.splits)
  moreover have "smtp_results w4 = smtp_results w3"
    using wait_network_smtp_results [OF 4] by (simp add: emit_def act_def)
  ultimately show
    "((r, msg, emit (Log ''Network restored. Resuming email sending process.'') w4), (r, msg, w))
       \<in> measure (\<lambda>(r, msg, w). length (smtp_results w))"
    by (simp add: emit_def act_def)
qed

declare send_loop.simps [simp del]

section \<open>The run loop, version 1.2 (with checkpoint)\<close>

definition build_message :: "row \<Rightarrow> string \<Rightarrow> message" where
  "build_message r email_body =
     \<lparr>msg_subject = subject r,
      msg_from = signature r @ '' <'' @ from_email r @ ''>'',
      msg_to = to_email r,
      msg_body = email_body\<rparr>"

text \<open>
  The body of the \<^verbatim>\<open>for\<close> loop after the two checks at its top: render the body, build
  the message, run the send-retry loop, save the checkpoint, emit the progress, sleep.
\<close>

definition process_row :: "rat \<Rightarrow> nat \<Rightarrow> nat \<Rightarrow> row \<Rightarrow> world \<Rightarrow> unit result" where
  "process_row delay tot i r w =
     (let email_body = load_html_content (html_files w) (html_file r) (sal r) (signature r);
          w1 = act (Open_html (html_file r)) w;
          msg = build_message r email_body;
          w2 = emit (Log (''Sending email to '' @ to_email r @ '' from '' @ signature r
                 @ '' (row '' @ str_int (int i) @ '')...'')) w1
      in case send_loop r msg w2 of
           Pending w3 \<Rightarrow> Pending w3
         | Raised e w3 \<Rightarrow> Raised e w3
         | Done u w3 \<Rightarrow>
             (case save_checkpoint (int i + 1) w3 of
                Pending w4 \<Rightarrow> Pending w4
              | Raised e w4 \<Rightarrow> Raised e w4
              | Done u' w4 \<Rightarrow>
                  (case progress_percent i tot of
                     Inl e \<Rightarrow> Raised e w4
                   | Inr p \<Rightarrow> time_sleep delay (emit (Log_waiting delay) (emit (Progress p) w4)))))"

text \<open>
  \<^verbatim>\<open>for i, row in df.iterrows()\<close>: rows below the checkpoint are skipped by \<^verbatim>\<open>continue\<close>;
  \<^verbatim>\<open>break\<close> ends the loop when \<^verbatim>\<open>self._running\<close> is false.
\<close>

fun run_loop :: "rat \<Rightarrow> nat \<Rightarrow> int \<Rightarrow> nat \<Rightarrow> row list \<Rightarrow> world \<Rightarrow> unit result" where
  "run_loop delay tot start_index i [] w = Done () w"
| "run_loop delay tot start_index i (r # rest) w =
     (if int i < start_index then run_loop delay tot start_index (Suc i) rest w
      else
        (case wait_pause w of
           Pending w1 \<Rightarrow> Pending w1
         | Raised e w1 \<Rightarrow> Raised e w1
         | Done u w1 \<Rightarrow>
             (case read_running w1 of
                Pending w2 \<Rightarrow> Pending w2
              | Raised e w2 \<Rightarrow> Raised e w2
              | Done running w2 \<Rightarrow>
                  if \<not> running then Done () w2
                  else
                    (case process_row delay tot i r w2 of
                       Pending w3 \<Rightarrow> Pending w3
                     | Raised e w3 \<Rightarrow> Raised e w3
                     | Done u' w3 \<Rightarrow> run_loop delay tot start_index (Suc i) rest w3))))"

text \<open>The failure report at the end of the run; an error of the write is logged.\<close>

definition export_report :: "world \<Rightarrow> unit result" where
  "export_report w =
     (if failed_emails w \<noteq> [] then
        (case report_results w of
           [] \<Rightarrow> Pending w
         | r # rs \<Rightarrow>
             (let w1 = act (Write_report (failed_emails w)) (w\<lparr>report_results := rs\<rparr>)
              in case r of
                   None \<Rightarrow> Done () (emit (Log ''Failure report saved to failed_emails_report.xlsx'') w1)
                 | Some report_err \<Rightarrow>
                     Done () (emit (Log (''Error saving failure report: '' @ report_err)) w1)))
      else Done () w)"

definition required_columns :: "string list" where
  "required_columns =
     [''from_email'', ''password'', ''sal'', ''signature'', ''to_email'', ''subject'', ''html_file'']"

definition finish :: "world \<Rightarrow> unit result" where
  "finish w =
     (case export_report w of
        Pending w1 \<Rightarrow> Pending w1
      | Raised e w1 \<Rightarrow> Raised e w1
      | Done u w1 \<Rightarrow>
          Done () (emit Finished (emit (Log (''Finished sending emails.'' @ [CHR 0x0A])) w1)))"

definition run :: "rat \<Rightarrow> world \<Rightarrow> unit result" where
  "run delay w =
     (case excel w of
        Inl e \<Rightarrow> Done () (emit Finished (emit (Log (''Error reading Excel file: '' @ e)) w))
      | Inr df \<Rightarrow>
          (case find (\<lambda>col. col \<notin> set (columns df)) required_columns of
             Some col \<Rightarrow> Done () (emit Finished (emit (Log (''Missing required column: '' @ col)) w))
           | None \<Rightarrow>
               (let tot = length (rows df);
                    w1 = emit (Total_contacts tot) w
                in case load_checkpoint (checkpoint_file w1) of
                     Inl e \<Rightarrow> Raised e w1
                   | Inr start_index \<Rightarrow>
                       (let w2 = emit (Log (''Resuming from row '' @ str_int start_index)) w1;
                            w3 = w2\<lparr>sent_count := 0\<rparr>
                        in case run_loop delay tot start_index 0 (rows df) w3 of
                             Pending w4 \<Rightarrow> Pending w4
                           | Raised e w4 \<Rightarrow> Raised e w4
                           | Done u w4 \<Rightarrow> finish w4))))"

text \<open>
  \<^verbatim>\<open>EmailSenderWorker.__init__\<close> starts with an empty failure list; \<^verbatim>\<open>start_sending\<close>
  of the window builds a new worker for every run and starts it.
\<close>

definition init_worker :: "world \<Rightarrow> world" where
  "init_worker w = w\<lparr>failed_emails := []\<rparr>"

definition start_sending :: "rat \<Rightarrow> world \<Rightarrow> unit result" where
  "start_sending delay w = run delay (init_worker w)"

section \<open>The run loop, version 1 (no checkpoint)\<close>

definition process_row_v1 :: "rat \<Rightarrow> nat \<Rightarrow> nat \<Rightarrow> row \<Rightarrow> world \<Rightarrow> unit result" where
  "process_row_v1 delay tot i r w =
     (let email_body = load_html_content (html_files w) (html_file r) (sal r) (signature r);
          w1 = act (Open_html (html_file r)) w;
          msg = build_message r email_body;
          w2 = emit (Log (''Sending email to '' @ to_email r @ '' from '' @ signature r @ ''...'')) w1
      in case send_loop r msg w2 of
           Pending w3 \<Rightarrow> Pending w3
         | Raised e w3 \<Rightarrow> Raised e w3
         | Done u w3 \<Rightarrow>
             (case progress_percent i tot of
                Inl e \<Rightarrow> Raised e w3
              | Inr p \<Rightarrow> time_sleep delay (emit (Log_waiting delay) (emit (Progress p) w3))))"

fun run_loop_v1 :: "rat \<Rightarrow> nat \<Rightarrow> nat \<Rightarrow> row list \<Rightarrow> world \<Rightarrow> unit result" where
  "run_loop_v1 delay tot i [] w = Done () w"
| "run_loop_v1 delay tot i (r # rest) w =
     (case wait_pause w of
        Pending w1 \<Rightarrow> Pending w1
      | Raised e w1 \<Rightarrow> Raised e w1
      | Done u w1 \<Rightarrow>
          (case read_running w1 of
             Pending w2 \<Rightarrow> Pending w2
           | Raised e w2 \<Rightarrow> Raised e w2
           | Done running w2 \<Rightarrow>
               if \<not> running then Done () w2
               else
                 (case process_row_v1 delay tot i r w2 of
                    Pending w3 \<Rightarrow> Pending w3
                  | Raised e w3 \<Rightarrow> Raised e w3
                  | Done u' w3 \<Rightarrow> run_loop_v1 delay tot (Suc i) rest w3)))"

definition run_v1 :: "rat \<Rightarrow> world \<Rightarrow> unit result" where
  "run_v1 delay w =
     (case excel w of
        Inl e \<Rightarrow> Done () (emit Finished (emit (Log (''Error reading Excel file: '' @ e)) w))
      | Inr df \<Rightarrow>
          (case find (\<lambda>col. col \<notin> set (columns df)) required_columns of
             Some col \<Rightarrow> Done () (emit Finished (emit (Log (''Missing required column: '' @ col)) w))
           | None \<Rightarrow>
               (let tot = length (rows df);
                    w1 = emit (Total_contacts tot) w;
                    w2 = w1\<lparr>sent_count := 0\<rparr>
                in case run_loop_v1 delay tot 0 (rows df) w2 of
                     Pending w3 \<Rightarrow> Pending w3
                   | Raised e w3 \<Rightarrow> Raised e w3
                   | Done u w3 \<Rightarrow> finish w3)))"

definition start_sending_v1 :: "rat \<Rightarrow> world \<Rightarrow> unit result" where
  "start_sending_v1 delay w = run_v1 delay (init_worker w)"

section \<open>Properties of the string and integer primitives\<close>

text \<open>\<open>py_in\<close> is the contiguous-substring relation of the list library.\<close>

lemma py_in_sublist: "py_in sub s = sublist sub s"
  by (induction s) (auto simp: sublist_Cons_right)

lemma replace_from_absent: "\<not> py_in old s \<Longrightarrow> replace_from old new s = s"
  by (induction s) auto

lemma py_replace_absent: "\<not> py_in old s \<Longrightarrow> py_replace old new s = s"
  by (cases s) (auto simp: py_replace_def replace_from_absent)

text \<open>The first occurrence of \<open>old\<close> is replaced, and the scan goes on behind it.\<close>

lemma prefix_within:
  "length old \<le> length xs \<Longrightarrow> prefix old (xs @ ys) = prefix old xs"
  by (auto simp: prefix_append)

lemma replace_from_at_occurrence:
  "old \<noteq> [] \<Longrightarrow> replace_from old new (old @ b) = new @ replace_from old new b"
  by (cases old) simp_all

lemma replace_from_first_occurrence:
  assumes "old \<noteq> []" and "\<not> py_in old (a @ butlast old)"
  shows "replace_from old new (a @ old @ b) = a @ new @ replace_from old new b"
  using assms(2)
proof (induction a)
  case Nil
  then show ?case
    using assms(1) by (simp add: replace_from_at_occurrence)
next
  case (Cons x a)
  have len: "length old \<le> length (x # a @ butlast old)"
    using assms(1) by simp
  have split: "x # a @ old @ b = (x # a @ butlast old) @ (last old # b)"
    using assms(1) by simp
  have "\<not> prefix old (x # a @ butlast old)" and rest: "\<not> py_in old (a @ butlast old)"
    using Cons.prems by simp_all
  then have "\<not> prefix old (x # a @ old @ b)"
    unfolding split using prefix_within [OF len] by blast
  then show ?case
    using Cons.IH [OF rest] by simp
qed

lemma digit_val_digit_char: "d < 10 \<Longrightarrow> digit_val (digit_char d) = d"
  by (simp add: digit_val_def digit_char_def)

lemma is_digit_digit_char: "d < 10 \<Longrightarrow> is_digit (digit_char d)"
  by (simp add: is_digit_def digit_char_def)

lemma digit_not_space: "is_digit c \<Longrightarrow> \<not> is_space c"
  by (auto simp: is_digit_def is_space_def Let_def)

lemma digit_not_sign: "is_digit c \<Longrightarrow> c \<noteq> CHR ''-'' \<and> c \<noteq> CHR ''+''"
  by (auto simp: is_digit_def)

lemma str_nat_digits: "list_all is_digit (str_nat n) \<and> str_nat n \<noteq> []"
proof (induction n rule: str_nat.induct)
  case (1 n)
  show ?case
  proof (cases "n < 10")
    case True
    then show ?thesis by (subst (1 2) str_nat.simps) (simp add: is_digit_digit_char)
  next
    case False
    with 1 show ?thesis by (subst (1 2) str_nat.simps) (simp add: is_digit_digit_char)
  qed
qed

lemma digits_val_digits:
  "list_all is_digit cs \<Longrightarrow> digits_val acc cs = Some (foldl (\<lambda>a c. 10 * a + digit_val c) acc cs)"
  by (induction acc cs rule: digits_val.induct) auto

lemma parse_digits_digits:
  "list_all is_digit cs \<Longrightarrow> cs \<noteq> [] \<Longrightarrow>
     parse_digits cs = Some (foldl (\<lambda>a c. 10 * a + digit_val c) 0 cs)"
  by (cases cs) (auto simp: parse_digits_def digits_val_digits)

lemma foldl_str_nat: "foldl (\<lambda>a c. 10 * a + digit_val c) 0 (str_nat n) = n"
proof (induction n rule: str_nat.induct)
  case (1 n)
  show ?case
  proof (cases "n < 10")
    case True
    then show ?thesis by (subst str_nat.simps) (simp add: digit_val_digit_char)
  next
    case False
    with 1 show ?thesis by (subst str_nat.simps) (simp add: digit_val_digit_char)
  qed
qed

lemma parse_digits_str_nat: "parse_digits (str_nat n) = Some n"
  using str_nat_digits [of n] by (simp add: parse_digits_digits foldl_str_nat)

lemma py_strip_id:
  assumes "s \<noteq> []" and "\<not> is_space (hd s)" and "\<not> is_space (last s)"
  shows "py_strip s = s"
proof -
  have keep: "dropWhile is_space xs = xs" if "xs \<noteq> []" and "\<not> is_space (hd xs)" for xs
    using that by (cases xs) auto
  have "hd (rev s) = last s"
    using assms by (simp add: hd_rev)
  then have "dropWhile is_space (rev s) = rev s"
    using assms by (intro keep) simp_all
  then show ?thesis
    using assms by (simp add: py_strip_def keep)
qed

lemma py_strip_str_int: "py_strip (str_int i) = str_int i"
proof (rule py_strip_id)
  show "str_int i \<noteq> []"
    using str_nat_digits by (simp add: str_int_def)
  show "\<not> is_space (hd (str_int i))"
    using str_nat_digits [of "nat i"]
    by (cases "str_nat (nat i)") (auto simp: str_int_def is_space_def dest: digit_not_space)
  show "\<not> is_space (last (str_int i))"
    using str_nat_digits [of "nat i"] str_nat_digits [of "nat (- i)"]
    by (auto simp: str_int_def list_all_iff dest!: digit_not_space intro: last_in_set)
qed

text \<open>What \<^verbatim>\<open>str\<close> writes, \<^verbatim>\<open>int\<close> reads back.\<close>

lemma py_int_str_int: "py_int (str_int i) = Some i"
proof (cases "i < 0")
  case True
  then show ?thesis
    using py_strip_str_int [of i] by (simp add: py_int_def str_int_def parse_digits_str_nat)
next
  case False
  obtain c cs where cs: "str_nat (nat i) = c # cs" "is_digit c"
    using str_nat_digits [of "nat i"] by (cases "str_nat (nat i)") auto
  with False show ?thesis
    using py_strip_str_int [of i] parse_digits_str_nat [of "nat i"] digit_not_sign [of c]
    by (simp add: py_int_def str_int_def)
qed

lemma load_checkpoint_saved: "load_checkpoint (Ck_content (str_int i)) = Inr i"
  by (simp add: load_checkpoint_def py_strip_str_int py_int_str_int)

section \<open>Body rendering\<close>

text \<open>The two examples of rendering: placeholders substituted, signature block appended.\<close>

lemma load_html_content_examples:
  "load_html_content [(''t.html'', Inr ''Hi {sal}, ... {signature}'')] ''t.html'' ''Jane'' ''Bob''
     = ''Hi Jane, ... Bob''"
  "load_html_content [(''t.html'', Inr ''Hello'')] ''t.html'' ''Jane'' ''Bob''
     = ''Hello<br><br>Thanks & Regards,<br>Bob''"
  by (simp_all add: load_html_content_def open_read_def py_replace_def)

text \<open>A template with one \<^verbatim>\<open>{sal}\<close> and no \<^verbatim>\<open>{signature}\<close>: the salutation takes its place.\<close>

lemma load_html_content_first_placeholder:
  assumes "open_read fs p = Inr (a @ ''{sal}'' @ b)"
    and "\<not> sublist ''{sal}'' (a @ ''{sal'')"
    and "\<not> sublist ''{sal}'' b"
    and "\<not> sublist ''{signature}'' (a @ s @ b)"
  shows "load_html_content fs p s g = a @ s @ b"
proof -
  have "py_in ''{sal}'' (a @ ''{sal}'' @ b)"
    by (simp add: py_in_sublist sublist_append)
  moreover have "replace_from ''{sal}'' s (a @ ''{sal}'' @ b) = a @ s @ replace_from ''{sal}'' s b"
    using assms(2) by (intro replace_from_first_occurrence) (simp_all add: py_in_sublist)
  moreover have "replace_from ''{sal}'' s b = b"
    using assms(3) by (simp add: replace_from_absent py_in_sublist)
  ultimately show ?thesis
    using assms(1,4) by (simp add: load_html_content_def py_replace_def replace_from_absent py_in_sublist)
qed

text \<open>
  C9, as stated: a template with neither placeholder gets the suffix
  \<^verbatim>\<open>"\n\nThanks & Regards,\n<signature>"\<close>. The template \<^verbatim>\<open>Hello\<close> has neither
  placeholder, and its rendering with the signature \<^verbatim>\<open>Bob\<close> is not the template followed
  by two line feeds, \<^verbatim>\<open>Thanks & Regards,\<close>, a line feed and \<^verbatim>\<open>Bob\<close>.
\<close>

theorem load_html_content_suffix_counterexample:
  "\<not> sublist ''{sal}'' ''Hello'' \<and> \<not> sublist ''{signature}'' ''Hello'' \<and>
   load_html_content [(''t.html'', Inr ''Hello'')] ''t.html'' ''Jane'' ''Bob''
     \<noteq> ''Hello'' @ [CHR 0x0A, CHR 0x0A] @ ''Thanks & Regards,'' @ [CHR 0x0A] @ ''Bob''"
  by (simp add: load_html_content_def open_read_def py_in_sublist [symmetric])

text \<open>
  C9, amended: for a template that is read and contains neither \<^verbatim>\<open>{sal}\<close> nor
  \<^verbatim>\<open>{signature}\<close> as a substring, rendering returns the template followed by
  \<^verbatim>\<open><br><br>Thanks & Regards,<br>\<close> and the signature (HTML line breaks, not line feeds).
  When one of the two is present, the result is the template with \<^verbatim>\<open>{sal}\<close> replaced by
  the salutation and then \<^verbatim>\<open>{signature}\<close> replaced by the signature; a replacement whose
  placeholder is missing leaves its text as it is.
\<close>

theorem load_html_content_render:
  assumes "open_read fs p = Inr content"
  shows "(\<not> sublist ''{sal}'' content \<and> \<not> sublist ''{signature}'' content \<longrightarrow>
            load_html_content fs p s g = content @ ''<br><br>Thanks & Regards,<br>'' @ g) \<and>
         (sublist ''{sal}'' content \<or> sublist ''{signature}'' content \<longrightarrow>
            load_html_content fs p s g
              = py_replace ''{signature}'' g (py_replace ''{sal}'' s content)) \<and>
         (\<not> sublist ''{sal}'' content \<longrightarrow> py_replace ''{sal}'' s content = content) \<and>
         (\<not> sublist ''{signature}'' (py_replace ''{sal}'' s content) \<longrightarrow>
            py_replace ''{signature}'' g (py_replace ''{sal}'' s content)
              = py_replace ''{sal}'' s content)"
  using assms
  by (simp add: load_html_content_def py_in_sublist [symmetric] py_replace_absent)

theorem load_html_content_render_witness:
  "open_read [(''t.html'', Inr ''Hello'')] ''t.html'' = Inr ''Hello'' \<and>
   \<not> sublist ''{sal}'' ''Hello'' \<and> \<not> sublist ''{signature}'' ''Hello'' \<and>
   load_html_content [(''t.html'', Inr ''Hello'')] ''t.html'' ''Jane'' ''Bob''
     = ''Hello<br><br>Thanks & Regards,<br>Bob'' \<and>
   open_read [(''u.html'', Inr ''Dear {sal},'')] ''u.html'' = Inr ''Dear {sal},'' \<and>
   sublist ''{sal}'' ''Dear {sal},'' \<and>
   \<not> sublist ''{signature}'' (py_replace ''{sal}'' ''Jane'' ''Dear {sal},'') \<and>
   load_html_content [(''u.html'', Inr ''Dear {sal},'')] ''u.html'' ''Jane'' ''Bob''
     = ''Dear Jane,''"
proof -
  have h1: "open_read [(''t.html'', Inr ''Hello'')] ''t.html'' = Inr ''Hello''"
    by (simp add: open_read_def)
  have h2: "open_read [(''u.html'', Inr ''Dear {sal},'')] ''u.html'' = Inr ''Dear {sal},''"
    by (simp add: open_read_def)
  have n1: "\<not> sublist ''{sal}'' ''Hello'' \<and> \<not> sublist ''{signature}'' ''Hello''"
    by (simp add: py_in_sublist [symmetric])
  have n2: "sublist ''{sal}'' ''Dear {sal},''"
    by (simp add: py_in_sublist [symmetric])
  have r2: "py_replace ''{sal}'' ''Jane'' ''Dear {sal},'' = ''Dear Jane,''"
    by (simp add: py_replace_def)
  have n3: "\<not> sublist ''{signature}'' ''Dear Jane,''"
    by (simp add: py_in_sublist [symmetric])
  show ?thesis
    using load_html_content_render [OF h1, of "''Jane''" "''Bob''"]
      load_html_content_render [OF h2, of "''Jane''" "''Bob''"] h1 h2 n1 n2 n3 r2
    by simp
qed

section \<open>Loading the checkpoint\<close>

text \<open>
  \<^verbatim>\<open>load_checkpoint\<close> returns 0 when there is no file, when reading the opened file
  raises, and when the content is not an integer; it returns what \<^verbatim>\<open>save_checkpoint\<close>
  wrote.
\<close>

lemma load_checkpoint_zero:
  "load_checkpoint Ck_absent = Inr 0"
  "load_checkpoint (Ck_read_error e) = Inr 0"
  "py_int (py_strip s) = None \<Longrightarrow> load_checkpoint (Ck_content s) = Inr 0"
  by (simp_all add: load_checkpoint_def)

section \<open>What waiting and sending leave unchanged\<close>

text \<open>
  \<open>calm w w'\<close>: from \<open>w\<close> to \<open>w'\<close> the checkpoint file, the pending reads of
  \<^verbatim>\<open>self._running\<close>, the pending results of checkpoint and report writes, the failure
  list and the sent count are the same, and the trace has only grown.
\<close>

definition calm :: "world \<Rightarrow> world \<Rightarrow> bool" where
  "calm w w' \<longleftrightarrow>
     checkpoint_file w' = checkpoint_file w \<and> running_reads w' = running_reads w \<and>
     save_results w' = save_results w \<and> report_results w' = report_results w \<and>
     failed_emails w' = failed_emails w \<and> sent_count w' = sent_count w \<and>
     prefix (trace w) (trace w')"

definition accounted :: "world \<Rightarrow> nat" where
  "accounted w = sent_count w + length (failed_emails w)"

definition failure_entry :: "row \<Rightarrow> string \<Rightarrow> failed_email" where
  "failure_entry r error_message =
     \<lparr>fe_from_email = from_email r, fe_to_email = to_email r,
      fe_subject = subject r, fe_error_message = error_message\<rparr>"

lemma calm_refl [simp]: "calm w w"
  by (simp add: calm_def)

lemma calm_trans: "calm w w1 \<Longrightarrow> calm w1 w2 \<Longrightarrow> calm w w2"
  by (auto simp: calm_def)

lemma calm_act [simp]: "calm w (act a w)"
  by (simp add: calm_def act_def)

lemma calm_emit [simp]: "calm w (emit s w)"
  by (simp add: emit_def)

lemma calm_read_pause: "calm w (state_of (read_pause w))"
  by (simp add: read_pause_def calm_def split: list.splits)

lemma calm_check_network: "calm w (state_of (check_network w))"
  by (simp add: check_network_def calm_def act_def split: list.splits)

lemma calm_smtp_send: "calm w (state_of (smtp_send a b c m w))"
  by (simp add: smtp_send_def calm_def act_def split: list.splits)

lemma wait_pause_calm: "calm w (state_of (wait_pause w))"
proof (induction w rule: wait_pause.induct)
  case (1 w)
  show ?case
  proof (cases "read_pause w")
    case (Done p w1)
    then have c1: "calm w w1"
      using calm_read_pause [of w] by simp
    show ?thesis
    proof (cases p)
      case True
      then have "calm (act (Sleep (1 / 10)) w1) (state_of (wait_pause (act (Sleep (1 / 10)) w1)))"
        using 1 Done by simp
      then have "calm w (state_of (wait_pause (act (Sleep (1 / 10)) w1)))"
        using c1 calm_act calm_trans by blast
      then show ?thesis
        using Done True by (subst wait_pause.simps) simp
    next
      case False
      then show ?thesis
        using Done c1 by (subst wait_pause.simps) simp
    qed
  next
    case (Raised e w1)
    then show ?thesis
      using calm_read_pause [of w] by (subst wait_pause.simps) simp
  next
    case (Pending w1)
    then show ?thesis
      using calm_read_pause [of w] by (subst wait_pause.simps) simp
  qed
qed

lemma wait_network_calm: "calm w (state_of (wait_network w))"
proof (induction w rule: wait_network.induct)
  case (1 w)
  show ?case
  proof (cases "check_network w")
    case (Done up w1)
    then have c1: "calm w w1"
      using calm_check_network [of w] by simp
    show ?thesis
    proof (cases up)
      case False
      then have "calm (act (Sleep 5) w1) (state_of (wait_network (act (Sleep 5) w1)))"
        using 1 Done by simp
      then have "calm w (state_of (wait_network (act (Sleep 5) w1)))"
        using c1 calm_act calm_trans by blast
      then show ?thesis
        using Done False by (subst wait_network.simps) simp
    next
      case True
      then show ?thesis
        using Done c1 by (subst wait_network.simps) simp
    qed
  next
    case (Raised e w1)
    then show ?thesis
      using calm_check_network [of w] by (subst wait_network.simps) simp
  next
    case (Pending w1)
    then show ?thesis
      using calm_check_network [of w] by (subst wait_network.simps) simp
  qed
qed

lemma wait_pause_not_raised: "wait_pause w \<noteq> Raised e w'"
proof (induction w rule: wait_pause.induct)
  case (1 w)
  then show ?case
    by (subst wait_pause.simps) (auto simp: read_pause_def split: list.splits)
qed

lemma wait_network_not_raised: "wait_network w \<noteq> Raised e w'"
proof (induction w rule: wait_network.induct)
  case (1 w)
  then show ?case
    by (subst wait_network.simps) (auto simp: check_network_def split: list.splits)
qed


text \<open>
  What one run of the send-retry loop does to the state: it leaves the checkpoint and the
  flags alone, and when it returns, exactly one of the two counts has grown by one.
\<close>
definition sent_or_failed :: "row \<Rightarrow> world \<Rightarrow> unit result \<Rightarrow> bool" where
  "sent_or_failed r w res \<longleftrightarrow>
     checkpoint_file (state_of res) = checkpoint_file w \<and>
     running_reads (state_of res) = running_reads w \<and>
     save_results (state_of res) = save_results w \<and>
     report_results (state_of res) = report_results w \<and>
     prefix (trace w) (trace (state_of res)) \<and>
     (case res of
        Done u w' \<Rightarrow>
          (sent_count w' = sent_count w + 1 \<and> failed_emails w' = failed_emails w) \<or>
          (sent_count w' = sent_count w \<and>
           (\<exists>e. failed_emails w' = failed_emails w @ [failure_entry r e]))
      | Raised e w' \<Rightarrow> False
      | Pending w' \<Rightarrow> sent_count w' = sent_count w \<and> failed_emails w' = failed_emails w)"

lemma sent_or_failed_after_calm:
  "calm w w1 \<Longrightarrow> sent_or_failed r w1 res \<Longrightarrow> sent_or_failed r w res"
  by (auto simp: calm_def sent_or_failed_def split: result.splits)

lemma sent_or_failed_pending: "calm w w1 \<Longrightarrow> sent_or_failed r w (Pending w1)"
  by (auto simp: calm_def sent_or_failed_def)

lemma sent_or_failed_sent:
  "calm w w2 \<Longrightarrow>
   sent_or_failed r w (Done () (emit (Emails_sent (sent_count w2 + 1))
       ((emit s w2)\<lparr>sent_count := sent_count w2 + 1\<rparr>)))"
  by (auto simp: sent_or_failed_def calm_def emit_def act_def)

lemma sent_or_failed_failed:
  "calm w w3 \<Longrightarrow>
   sent_or_failed r w (Done () ((emit s w3)\<lparr>failed_emails := failed_emails (emit s w3) @
      [\<lparr>fe_from_email = from_email r, fe_to_email = to_email r,
        fe_subject = subject r, fe_error_message = error_message\<rparr>]\<rparr>))"
  by (auto simp: sent_or_failed_def calm_def emit_def act_def failure_entry_def)

lemma send_loop_sent_or_failed: "sent_or_failed r w (send_loop r msg w)"
proof (induction r msg w rule: send_loop.induct)
  case (1 r msg w)
  show ?case
  proof (cases "wait_pause w")
    case (Pending w1)
    then show ?thesis
      using wait_pause_calm [of w] by (subst send_loop.simps) (simp add: sent_or_failed_pending)
  next
    case (Raised e w1)
    then show ?thesis
      by (simp add: wait_pause_not_raised)
  next
    case wp: (Done u w1)
    then have c1: "calm w w1"
      using wait_pause_calm [of w] by simp
    show ?thesis
    proof (cases "smtp_send (from_email r) (password r) (to_email r) msg w1")
      case (Pending w2)
      then have "calm w1 w2"
        using calm_smtp_send [of w1 "from_email r" "password r" "to_email r" msg] by simp
      then have "calm w w2"
        using c1 calm_trans by blast
      then show ?thesis
        using wp Pending by (subst send_loop.simps) (simp add: sent_or_failed_pending)
    next
      case (Raised e w2)
      then show ?thesis
        by (simp add: smtp_send_def split: list.splits)
    next
      case sm: (Done res w2)
      then have "calm w1 w2"
        using calm_smtp_send [of w1 "from_email r" "password r" "to_email r" msg] by simp
      then have c2: "calm w w2"
        using c1 calm_trans by blast
      show ?thesis
      proof (cases res)
        case None
        then show ?thesis
          using wp sm sent_or_failed_sent [OF c2]
          by (subst send_loop.simps) (simp add: Let_def emit_def act_def)
      next
        case (Some error_message)
        show ?thesis
        proof (cases "check_network w2")
          case (Pending w3)
          then have "calm w2 w3"
            using calm_check_network [of w2] by simp
          then have "calm w w3"
            using c2 calm_trans by blast
          then show ?thesis
            using wp sm Some Pending by (subst send_loop.simps) (simp add: sent_or_failed_pending)
        next
          case (Raised e w3)
          then show ?thesis
            by (simp add: check_network_def split: list.splits)
        next
          case cn: (Done up w3)
          then have "calm w2 w3"
            using calm_check_network [of w2] by simp
          then have c3: "calm w w3"
            using c2 calm_trans by blast
          show ?thesis
          proof (cases up)
            case True
            then show ?thesis
              using wp sm Some cn sent_or_failed_failed [OF c3]
              by (subst send_loop.simps) (simp add: Let_def)
          next
            case False
            let ?w3 = "emit (Log ''Network disconnected. Pausing email sending process. Waiting for network to be restored...'') w3"
            have c3': "calm w ?w3"
              using c3 calm_emit calm_trans by blast
            show ?thesis
            proof (cases "wait_network ?w3")
              case (Pending w4)
              then have "calm ?w3 w4"
                using wait_network_calm [of ?w3] by simp
              then have "calm w w4"
                using c3' calm_trans by blast
              then show ?thesis
                using wp sm Some cn False Pending
                by (subst send_loop.simps) (simp add: sent_or_failed_pending)
            next
              case (Raised e w4)
              then show ?thesis
                by (simp add: wait_network_not_raised)
            next
              case wn: (Done u' w4)
              let ?w4 = "emit (Log ''Network restored. Resuming email sending process.'') w4"
              have "calm ?w3 w4"
                using wn wait_network_calm [of ?w3] by simp
              then have "calm w w4"
                using c3' calm_trans by blast
              then have c4: "calm w ?w4"
                using calm_emit calm_trans by blast
              have "sent_or_failed r ?w4 (send_loop r msg ?w4)"
                using 1 [OF wp sm Some cn _ wn] False by simp
              then have "sent_or_failed r w (send_loop r msg ?w4)"
                using c4 by (rule sent_or_failed_after_calm [rotated])
              then show ?thesis
                using wp sm Some cn False wn by (subst send_loop.simps) simp
            qed
          qed
        qed
      qed
    qed
  qed
qed

section \<open>One row\<close>

text \<open>
  \<open>exactly_one r w w'\<close>: from \<open>w\<close> to \<open>w'\<close> either the sent count grew by one and the
  failure list is the same, or the failure list got one entry for row \<open>r\<close> and the sent
  count is the same.
\<close>

definition exactly_one :: "row \<Rightarrow> world \<Rightarrow> world \<Rightarrow> bool" where
  "exactly_one r w w' \<longleftrightarrow>
     (sent_count w' = sent_count w + 1 \<and> failed_emails w' = failed_emails w) \<or>
     (sent_count w' = sent_count w \<and>
      (\<exists>e. failed_emails w' = failed_emails w @ [failure_entry r e]))"

lemma exactly_one_accounted: "exactly_one r w w' \<Longrightarrow> accounted w' = accounted w + 1"
  by (auto simp: exactly_one_def accounted_def)

lemma send_loop_done:
  assumes "send_loop r msg w = Done u w'"
  shows "exactly_one r w w' \<and> checkpoint_file w' = checkpoint_file w \<and>
         running_reads w' = running_reads w \<and> save_results w' = save_results w \<and>
         report_results w' = report_results w \<and> prefix (trace w) (trace w')"
  using send_loop_sent_or_failed [of r w msg] assms
  by (simp add: sent_or_failed_def exactly_one_def)

lemma send_loop_not_done:
  assumes "send_loop r msg w \<noteq> Done () (state_of (send_loop r msg w))"
  shows "calm w (state_of (send_loop r msg w))"
  using send_loop_sent_or_failed [of r w msg] assms
  by (cases "send_loop r msg w") (auto simp: sent_or_failed_def calm_def)

lemma send_loop_not_raised: "send_loop r msg w \<noteq> Raised e w'"
  using send_loop_sent_or_failed [of r w msg] by (auto simp: sent_or_failed_def)

text \<open>
  The first steps of \<open>process_row\<close>, named: the message rendered for a row, and the state
  after the template was opened and the line \<^verbatim>\<open>Sending email to ...\<close> was logged.
\<close>

definition sending_line :: "nat \<Rightarrow> row \<Rightarrow> string" where
  "sending_line i r = ''Sending email to '' @ to_email r @ '' from '' @ signature r
                 @ '' (row '' @ str_int (int i) @ '')...''"

definition rendered :: "row \<Rightarrow> world \<Rightarrow> message" where
  "rendered r w = build_message r (load_html_content (html_files w) (html_file r) (sal r) (signature r))"

definition announced :: "nat \<Rightarrow> row \<Rightarrow> world \<Rightarrow> world" where
  "announced i r w = emit (Log (sending_line i r)) (act (Open_html (html_file r)) w)"

lemma process_row_unfold:
  "process_row delay tot i r w =
     (case send_loop r (rendered r w) (announced i r w) of
        Pending w3 \<Rightarrow> Pending w3
      | Raised e w3 \<Rightarrow> Raised e w3
      | Done u w3 \<Rightarrow>
          (case save_checkpoint (int i + 1) w3 of
             Pending w4 \<Rightarrow> Pending w4
           | Raised e w4 \<Rightarrow> Raised e w4
           | Done u' w4 \<Rightarrow>
               (case progress_percent i tot of
                  Inl e \<Rightarrow> Raised e w4
                | Inr p \<Rightarrow> time_sleep delay (emit (Log_waiting delay) (emit (Progress p) w4)))))"
  by (simp add: process_row_def rendered_def announced_def sending_line_def Let_def)

lemma calm_announced: "calm w (announced i r w)"
  unfolding announced_def using calm_act calm_emit calm_trans by blast

definition row_step :: "world \<Rightarrow> world \<Rightarrow> bool" where
  "row_step w w' \<longleftrightarrow>
     running_reads w' = running_reads w \<and> report_results w' = report_results w \<and>
     prefix (trace w) (trace w') \<and> accounted w \<le> accounted w' \<and> accounted w' \<le> accounted w + 1"

lemma save_checkpoint_step:
  "running_reads (state_of (save_checkpoint k w)) = running_reads w \<and>
   report_results (state_of (save_checkpoint k w)) = report_results w \<and>
   failed_emails (state_of (save_checkpoint k w)) = failed_emails w \<and>
   sent_count (state_of (save_checkpoint k w)) = sent_count w \<and>
   prefix (trace w) (trace (state_of (save_checkpoint k w)))"
  by (simp add: save_checkpoint_def act_def Let_def split: list.splits option.splits)

lemma save_checkpoint_done:
  "save_checkpoint k w = Done u w' \<Longrightarrow> checkpoint_file w' = Ck_content (str_int k)"
  by (auto simp: save_checkpoint_def act_def Let_def split: list.splits option.splits)

lemma time_sleep_calm: "calm w (state_of (time_sleep d w))"
  by (simp add: time_sleep_def Let_def)

lemma process_row_done:
  assumes "process_row delay tot i r w = Done u w'"
  shows "exactly_one r w w' \<and> checkpoint_file w' = Ck_content (str_int (int i + 1)) \<and>
         running_reads w' = running_reads w \<and> report_results w' = report_results w \<and>
         prefix (trace w) (trace w')"
proof -
  let ?w2 = "announced i r w"
  have c: "calm w ?w2" by (rule calm_announced)
  from assms obtain u3 w3 where sl: "send_loop r (rendered r w) ?w2 = Done u3 w3"
    by (cases "send_loop r (rendered r w) ?w2") (auto simp: process_row_unfold)
  from assms sl obtain u4 w4 where sc: "save_checkpoint (int i + 1) w3 = Done u4 w4"
    by (cases "save_checkpoint (int i + 1) w3") (auto simp: process_row_unfold)
  from assms sl sc obtain p where pp: "progress_percent i tot = Inr p"
    by (cases "progress_percent i tot") (auto simp: process_row_unfold)
  let ?w5 = "emit (Log_waiting delay) (emit (Progress p) w4)"
  from assms sl sc pp have ts: "time_sleep delay ?w5 = Done u w'"
    by (simp add: process_row_unfold)
  have 3: "exactly_one r ?w2 w3 \<and> checkpoint_file w3 = checkpoint_file ?w2 \<and>
         running_reads w3 = running_reads ?w2 \<and> save_results w3 = save_results ?w2 \<and>
         report_results w3 = report_results ?w2 \<and> prefix (trace ?w2) (trace w3)"
    using send_loop_done [OF sl] .
  have 4: "running_reads w4 = running_reads w3 \<and> report_results w4 = report_results w3 \<and>
      failed_emails w4 = failed_emails w3 \<and> sent_count w4 = sent_count w3 \<and>
      prefix (trace w3) (trace w4)"
    using save_checkpoint_step [of "int i + 1" w3] sc by simp
  have f4: "checkpoint_file w4 = Ck_content (str_int (int i + 1))"
    using save_checkpoint_done [OF sc] .
  have "calm w4 ?w5"
    using calm_emit calm_trans by blast
  moreover have "calm ?w5 w'"
    using time_sleep_calm [of ?w5 delay] ts by simp
  ultimately have 5: "calm w4 w'"
    using calm_trans by blast
  show ?thesis
    using c 3 4 f4 5 by (auto simp: calm_def exactly_one_def)
qed

lemma process_row_step: "row_step w (state_of (process_row delay tot i r w))"
proof -
  let ?w2 = "announced i r w"
  have c: "calm w ?w2" by (rule calm_announced)
  show ?thesis
  proof (cases "send_loop r (rendered r w) ?w2")
    case (Pending w3)
    then have "calm ?w2 w3"
      using send_loop_not_done [of r "rendered r w" ?w2] by simp
    with c have "calm w w3" using calm_trans by blast
    then show ?thesis
      using Pending by (simp add: process_row_unfold row_step_def calm_def accounted_def)
  next
    case (Raised e w3)
    then show ?thesis by (simp add: send_loop_not_raised)
  next
    case sl: (Done u3 w3)
    have 3: "exactly_one r ?w2 w3 \<and> checkpoint_file w3 = checkpoint_file ?w2 \<and>
         running_reads w3 = running_reads ?w2 \<and> save_results w3 = save_results ?w2 \<and>
         report_results w3 = report_results ?w2 \<and> prefix (trace ?w2) (trace w3)"
      using send_loop_done [OF sl] .
    then have a3: "accounted w3 = accounted w + 1"
      using exactly_one_accounted [of r ?w2 w3] c by (simp add: calm_def accounted_def)
    have r3: "row_step w w3"
      using 3 a3 c by (auto simp: row_step_def calm_def)
    have 4: "running_reads (state_of (save_checkpoint (int i + 1) w3)) = running_reads w3 \<and>
       report_results (state_of (save_checkpoint (int i + 1) w3)) = report_results w3 \<and>
       failed_emails (state_of (save_checkpoint (int i + 1) w3)) = failed_emails w3 \<and>
       sent_count (state_of (save_checkpoint (int i + 1) w3)) = sent_count w3 \<and>
       prefix (trace w3) (trace (state_of (save_checkpoint (int i + 1) w3)))"
      by (rule save_checkpoint_step)
    then have r4: "row_step w (state_of (save_checkpoint (int i + 1) w3))"
      using r3 by (auto simp: row_step_def accounted_def)
    show ?thesis
    proof (cases "save_checkpoint (int i + 1) w3")
      case (Pending w4)
      then show ?thesis using sl r4 by (simp add: process_row_unfold)
    next
      case (Raised e w4)
      then show ?thesis using sl r4 by (simp add: process_row_unfold)
    next
      case sc: (Done u4 w4)
      show ?thesis
      proof (cases "progress_percent i tot")
        case (Inl e)
        then show ?thesis using sl sc r4 by (simp add: process_row_unfold)
      next
        case (Inr p)
        let ?w5 = "emit (Log_waiting delay) (emit (Progress p) w4)"
        have "calm w4 ?w5"
          using calm_emit calm_trans by blast
        moreover have "calm ?w5 (state_of (time_sleep delay ?w5))"
          by (rule time_sleep_calm)
        ultimately have "calm w4 (state_of (time_sleep delay ?w5))"
          using calm_trans by blast
        then have "row_step w (state_of (time_sleep delay ?w5))"
          using r4 sc by (auto simp: row_step_def calm_def accounted_def)
        then show ?thesis using sl sc Inr by (simp add: process_row_unfold)
      qed
    qed
  qed
qed

section \<open>Rows below the checkpoint\<close>

lemma run_loop_skip:
  "int (i + length pre) \<le> c \<Longrightarrow>
   run_loop delay tot c i (pre @ rest) w = run_loop delay tot c (i + length pre) rest w"
  by (induction pre arbitrary: i) auto

lemma run_loop_skip_all: "int (i + length rs) \<le> c \<Longrightarrow> run_loop delay tot c i rs w = Done () w"
  using run_loop_skip [of i rs c delay tot "[]" w] by simp

lemma finish_no_failures:
  "failed_emails w = [] \<Longrightarrow>
   finish w = Done () (emit Finished (emit (Log (''Finished sending emails.'' @ [CHR 0x0A])) w))"
  by (simp add: finish_def export_report_def)

section \<open>The loop over the rows\<close>

text \<open>
  \<open>cancelled w w'\<close>: among the reads of \<^verbatim>\<open>self._running\<close> made from \<open>w\<close> to \<open>w'\<close>, one
  returned false (the loop was left by \<^verbatim>\<open>break\<close>).
\<close>

definition cancelled :: "world \<Rightarrow> world \<Rightarrow> bool" where
  "cancelled w w' \<longleftrightarrow>
     False \<in> set (take (length (running_reads w) - length (running_reads w')) (running_reads w))"

lemma cancelled_iff: "running_reads w = pre @ running_reads w' \<Longrightarrow> cancelled w w' = (False \<in> set pre)"
  by (simp add: cancelled_def)

lemma read_running_done:
  "read_running w = Done b w' \<Longrightarrow>
     running_reads w = b # running_reads w' \<and> report_results w' = report_results w \<and>
     checkpoint_file w' = checkpoint_file w \<and> failed_emails w' = failed_emails w \<and>
     sent_count w' = sent_count w \<and> trace w' = trace w"
  by (auto simp: read_running_def split: list.splits)

lemma read_running_state:
  "report_results (state_of (read_running w)) = report_results w \<and>
   checkpoint_file (state_of (read_running w)) = checkpoint_file w \<and>
   failed_emails (state_of (read_running w)) = failed_emails w \<and>
   sent_count (state_of (read_running w)) = sent_count w \<and>
   trace (state_of (read_running w)) = trace w"
  by (auto simp: read_running_def split: list.splits)

lemma read_running_not_raised: "read_running w \<noteq> Raised e w'"
  by (auto simp: read_running_def split: list.splits)

lemma run_loop_done:
  "run_loop delay tot c i rs w = Done u w' \<Longrightarrow>
   \<exists>pre. running_reads w = pre @ running_reads w' \<and> report_results w' = report_results w \<and>
     (if False \<in> set pre then accounted w' < accounted w + length rs
      else accounted w' = accounted w + (length rs - nat (c - int i)) \<and>
           checkpoint_file w' =
             (if length rs \<le> nat (c - int i) then checkpoint_file w
              else Ck_content (str_int (int (i + length rs)))))"
proof (induction rs arbitrary: i w)
  case Nil
  then show ?case by simp
next
  case (Cons r rest)
  show ?case
  proof (cases "int i < c")
    case True
    then have "run_loop delay tot c (Suc i) rest w = Done u w'"
      using Cons.prems by simp
    from Cons.IH [OF this] obtain pre where pre:
      "running_reads w = pre @ running_reads w'" "report_results w' = report_results w"
      "if False \<in> set pre then accounted w' < accounted w + length rest
       else accounted w' = accounted w + (length rest - nat (c - int (Suc i))) \<and>
            checkpoint_file w' =
              (if length rest \<le> nat (c - int (Suc i)) then checkpoint_file w
               else Ck_content (str_int (int (Suc i + length rest))))"
      by blast
    have n: "nat (c - int i) = Suc (nat (c - int (Suc i)))"
      using True by simp
    show ?thesis
      using pre n by (intro exI [of _ pre]) (auto split: if_splits)
  next
    case False
    from Cons.prems False obtain u1 w1 where wp: "wait_pause w = Done u1 w1"
      by (cases "wait_pause w") auto
    then have c1: "calm w w1"
      using wait_pause_calm [of w] by simp
    from Cons.prems False wp obtain b w2 where rr: "read_running w1 = Done b w2"
      by (cases "read_running w1") auto
    note r2 = read_running_done [OF rr]
    show ?thesis
    proof (cases b)
      case b: False
      then have "w' = w2"
        using Cons.prems False wp rr by simp
      then show ?thesis
        using c1 r2 b by (intro exI [of _ "[False]"]) (simp add: calm_def accounted_def)
    next
      case b: True
      from Cons.prems False wp rr b obtain u3 w3 where
        pr: "process_row delay tot i r w2 = Done u3 w3"
        by (cases "process_row delay tot i r w2") auto
      note p3 = process_row_done [OF pr]
      have a3: "accounted w3 = accounted w + 1"
        using p3 exactly_one_accounted [of r w2 w3] r2 c1 by (simp add: calm_def accounted_def)
      have "run_loop delay tot c (Suc i) rest w3 = Done u w'"
        using Cons.prems False wp rr b pr by simp
      from Cons.IH [OF this] obtain pre where pre:
        "running_reads w3 = pre @ running_reads w'" "report_results w' = report_results w3"
        "if False \<in> set pre then accounted w' < accounted w3 + length rest
         else accounted w' = accounted w3 + (length rest - nat (c - int (Suc i))) \<and>
              checkpoint_file w' =
                (if length rest \<le> nat (c - int (Suc i)) then checkpoint_file w3
                 else Ck_content (str_int (int (Suc i + length rest))))"
        by blast
      have n: "nat (c - int i) = 0" "nat (c - int (Suc i)) = 0"
        using False by simp_all
      have rw: "running_reads w = (True # pre) @ running_reads w'"
        using c1 r2 p3 pre(1) b by (simp add: calm_def)
      have rp: "report_results w' = report_results w"
        using c1 r2 p3 pre(2) by (simp add: calm_def)
      show ?thesis
        using rw rp pre(3) a3 n p3
        by (intro exI [of _ "True # pre"]) (auto simp: add.commute split: if_splits)
    qed
  qed
qed

lemma run_loop_any:
  "accounted w \<le> accounted (state_of (run_loop delay tot c i rs w)) \<and>
   accounted (state_of (run_loop delay tot c i rs w)) \<le> accounted w + length rs \<and>
   report_results (state_of (run_loop delay tot c i rs w)) = report_results w \<and>
   prefix (trace w) (trace (state_of (run_loop delay tot c i rs w)))"
proof (induction rs arbitrary: i w)
  case Nil
  then show ?case by simp
next
  case (Cons r rest)
  show ?case
  proof (cases "int i < c")
    case True
    then show ?thesis
      using Cons.IH [where i = "Suc i" and w = w] by auto
  next
    case False
    have c1: "calm w (state_of (wait_pause w))"
      by (rule wait_pause_calm)
    show ?thesis
    proof (cases "wait_pause w")
      case (Pending w1)
      then show ?thesis using c1 False by (simp add: calm_def accounted_def)
    next
      case (Raised e w1)
      then show ?thesis using c1 False by (simp add: calm_def accounted_def)
    next
      case wp: (Done u1 w1)
      note r2 = read_running_state [of w1]
      show ?thesis
      proof (cases "read_running w1")
        case (Pending w2)
        then show ?thesis using c1 False wp r2 by (simp add: calm_def accounted_def)
      next
        case (Raised e w2)
        then show ?thesis using c1 False wp r2 by (simp add: calm_def accounted_def)
      next
        case rr: (Done b w2)
        show ?thesis
        proof (cases b)
          case b: False
          then show ?thesis using c1 False wp r2 rr by (simp add: calm_def accounted_def)
        next
          case b: True
          have s3: "row_step w2 (state_of (process_row delay tot i r w2))"
            by (rule process_row_step)
          have "prefix (trace w) (trace w2)"
            using c1 wp r2 rr by (simp add: calm_def)
          then have t3: "prefix (trace w) (trace (state_of (process_row delay tot i r w2)))"
            using s3 by (auto simp: row_step_def)
          have s3': "report_results (state_of (process_row delay tot i r w2)) = report_results w \<and>
              accounted w \<le> accounted (state_of (process_row delay tot i r w2)) \<and>
              accounted (state_of (process_row delay tot i r w2)) \<le> accounted w + 1"
            using s3 c1 wp r2 rr by (simp add: row_step_def calm_def accounted_def)
          show ?thesis
          proof (cases "process_row delay tot i r w2")
            case (Pending w3)
            then show ?thesis using s3' t3 False wp rr b by simp
          next
            case (Raised e w3)
            then show ?thesis using s3' t3 False wp rr b by simp
          next
            case pr: (Done u3 w3)
            have "run_loop delay tot c i (r # rest) w = run_loop delay tot c (Suc i) rest w3"
              using False wp rr b pr by simp
            then show ?thesis
              using Cons.IH [where i = "Suc i" and w = w3] s3' t3 pr by auto
          qed
        qed
      qed
    qed
  qed
qed

section \<open>The whole run, version 1.2\<close>

text \<open>
  \<open>started c df w\<close> is the state in which \<open>run\<close> enters its loop: a new worker, the total
  and the line \<^verbatim>\<open>Resuming from row c\<close> emitted, the sent count at 0.
\<close>

definition started :: "int \<Rightarrow> dataframe \<Rightarrow> world \<Rightarrow> world" where
  "started c df w =
     (emit (Log (''Resuming from row '' @ str_int c))
        (emit (Total_contacts (length (rows df))) (init_worker w)))\<lparr>sent_count := 0\<rparr>"

lemma started_fields:
  "accounted (started c df w) = 0" "running_reads (started c df w) = running_reads w"
  "checkpoint_file (started c df w) = checkpoint_file w"
  "report_results (started c df w) = report_results w"
  "trace (started c df w) = trace w @ [Emit (Total_contacts (length (rows df))),
      Emit (Log (''Resuming from row '' @ str_int c))]"
  by (simp_all add: started_def accounted_def emit_def act_def init_worker_def)

lemma start_sending_unfold:
  assumes "excel w = Inr df"
    and "find (\<lambda>col. col \<notin> set (columns df)) required_columns = None"
    and "load_checkpoint (checkpoint_file w) = Inr c"
  shows "start_sending delay w =
           (case run_loop delay (length (rows df)) c 0 (rows df) (started c df w) of
              Pending w4 \<Rightarrow> Pending w4
            | Raised e w4 \<Rightarrow> Raised e w4
            | Done u w4 \<Rightarrow> finish w4)"
  using assms
  by (simp add: start_sending_def run_def started_def init_worker_def Let_def emit_def act_def)

lemma finish_state:
  "failed_emails (state_of (finish w)) = failed_emails w \<and>
   sent_count (state_of (finish w)) = sent_count w \<and>
   running_reads (state_of (finish w)) = running_reads w \<and>
   checkpoint_file (state_of (finish w)) = checkpoint_file w \<and>
   prefix (trace w) (trace (state_of (finish w)))"
  by (simp add: finish_def export_report_def emit_def act_def Let_def
      split: list.splits option.splits)

lemma finish_not_raised: "finish w \<noteq> Raised e w'"
  by (simp add: finish_def export_report_def Let_def split: list.splits option.splits)

lemma run_bounded:
  assumes "excel w = Inr df"
    and "find (\<lambda>col. col \<notin> set (columns df)) required_columns = None"
    and "load_checkpoint (checkpoint_file w) = Inr c"
  shows "accounted (state_of (start_sending delay w)) \<le> length (rows df)"
proof -
  let ?l = "run_loop delay (length (rows df)) c 0 (rows df) (started c df w)"
  have b: "accounted (state_of ?l) \<le> length (rows df)"
    using run_loop_any [of "started c df w" delay "length (rows df)" c 0 "rows df"]
    by (simp add: started_fields)
  show ?thesis
  proof (cases ?l)
    case (Done u w4)
    then show ?thesis
      using b finish_state [of w4] by (simp add: start_sending_unfold [OF assms] accounted_def)
  next
    case (Raised e w4)
    then show ?thesis
      using b by (simp add: start_sending_unfold [OF assms])
  next
    case (Pending w4)
    then show ?thesis
      using b by (simp add: start_sending_unfold [OF assms])
  qed
qed

lemma run_done:
  assumes "excel w = Inr df"
    and "find (\<lambda>col. col \<notin> set (columns df)) required_columns = None"
    and "load_checkpoint (checkpoint_file w) = Inr c"
    and "start_sending delay w = Done u w'"
  shows "if cancelled w w' then accounted w' < length (rows df)
         else accounted w' = length (rows df) - nat c \<and>
              checkpoint_file w' =
                (if length (rows df) \<le> nat c then checkpoint_file w
                 else Ck_content (str_int (int (length (rows df)))))"
proof -
  let ?l = "run_loop delay (length (rows df)) c 0 (rows df) (started c df w)"
  from assms(4) obtain u4 w4 where l: "?l = Done u4 w4" and f: "finish w4 = Done u w'"
    by (cases ?l) (auto simp: start_sending_unfold [OF assms(1-3)])
  from run_loop_done [OF l] obtain pre where pre:
    "running_reads (started c df w) = pre @ running_reads w4"
    "if False \<in> set pre then accounted w4 < accounted (started c df w) + length (rows df)
     else accounted w4 = accounted (started c df w) + (length (rows df) - nat (c - int 0)) \<and>
          checkpoint_file w4 =
            (if length (rows df) \<le> nat (c - int 0) then checkpoint_file (started c df w)
             else Ck_content (str_int (int (0 + length (rows df)))))"
    by blast
  have fs: "accounted w' = accounted w4" "running_reads w' = running_reads w4"
    "checkpoint_file w' = checkpoint_file w4"
    using finish_state [of w4] f by (simp_all add: accounted_def)
  have "running_reads w = pre @ running_reads w'"
    using pre(1) fs by (simp add: started_fields)
  then have "cancelled w w' = (False \<in> set pre)"
    by (rule cancelled_iff)
  then show ?thesis
    using pre(2) fs by (auto simp: started_fields split: if_splits)
qed

lemma run_nothing_to_do:
  assumes "excel w = Inr df"
    and "find (\<lambda>col. col \<notin> set (columns df)) required_columns = None"
    and "load_checkpoint (checkpoint_file w) = Inr c"
    and "int (length (rows df)) \<le> c \<or> rows df = []"
  shows "start_sending delay w =
           Done () (w\<lparr>failed_emails := [], sent_count := 0,
                      trace := trace w @
                        [Emit (Total_contacts (length (rows df))),
                         Emit (Log (''Resuming from row '' @ str_int c)),
                         Emit (Log (''Finished sending emails.'' @ [CHR 0x0A])),
                         Emit Finished]\<rparr>)"
proof -
  have "run_loop delay (length (rows df)) c 0 (rows df) w0 = Done () w0" for w0
    using assms(4) by (auto simp: run_loop_skip_all)
  then show ?thesis
    using assms(1-3)
    by (simp add: start_sending_def run_def init_worker_def Let_def emit_def act_def
        finish_no_failures)
qed

section \<open>The whole run, version 1\<close>

definition announced_v1 :: "row \<Rightarrow> world \<Rightarrow> world" where
  "announced_v1 r w =
     emit (Log (''Sending email to '' @ to_email r @ '' from '' @ signature r @ ''...''))
       (act (Open_html (html_file r)) w)"

lemma process_row_v1_unfold:
  "process_row_v1 delay tot i r w =
     (case send_loop r (rendered r w) (announced_v1 r w) of
        Pending w3 \<Rightarrow> Pending w3
      | Raised e w3 \<Rightarrow> Raised e w3
      | Done u w3 \<Rightarrow>
          (case progress_percent i tot of
             Inl e \<Rightarrow> Raised e w3
           | Inr p \<Rightarrow> time_sleep delay (emit (Log_waiting delay) (emit (Progress p) w3))))"
  by (simp add: process_row_v1_def rendered_def announced_v1_def Let_def)

lemma calm_announced_v1: "calm w (announced_v1 r w)"
  unfolding announced_v1_def using calm_act calm_emit calm_trans by blast

lemma process_row_v1_done:
  assumes "process_row_v1 delay tot i r w = Done u w'"
  shows "exactly_one r w w' \<and> running_reads w' = running_reads w \<and>
         report_results w' = report_results w \<and> prefix (trace w) (trace w')"
proof -
  let ?w2 = "announced_v1 r w"
  have c: "calm w ?w2" by (rule calm_announced_v1)
  from assms obtain u3 w3 where sl: "send_loop r (rendered r w) ?w2 = Done u3 w3"
    by (cases "send_loop r (rendered r w) ?w2") (auto simp: process_row_v1_unfold)
  from assms sl obtain p where pp: "progress_percent i tot = Inr p"
    by (cases "progress_percent i tot") (auto simp: process_row_v1_unfold)
  let ?w5 = "emit (Log_waiting delay) (emit (Progress p) w3)"
  from assms sl pp have ts: "time_sleep delay ?w5 = Done u w'"
    by (simp add: process_row_v1_unfold)
  note 3 = send_loop_done [OF sl]
  have "calm w3 ?w5"
    using calm_emit calm_trans by blast
  moreover have "calm ?w5 w'"
    using time_sleep_calm [of ?w5 delay] ts by simp
  ultimately have 5: "calm w3 w'"
    using calm_trans by blast
  show ?thesis
    using c 3 5 by (auto simp: calm_def exactly_one_def)
qed

lemma process_row_v1_step: "row_step w (state_of (process_row_v1 delay tot i r w))"
proof -
  let ?w2 = "announced_v1 r w"
  have c: "calm w ?w2" by (rule calm_announced_v1)
  show ?thesis
  proof (cases "send_loop r (rendered r w) ?w2")
    case (Pending w3)
    then have "calm ?w2 w3"
      using send_loop_not_done [of r "rendered r w" ?w2] by simp
    with c have "calm w w3" using calm_trans by blast
    then show ?thesis
      using Pending by (simp add: process_row_v1_unfold row_step_def calm_def accounted_def)
  next
    case (Raised e w3)
    then show ?thesis by (simp add: send_loop_not_raised)
  next
    case sl: (Done u3 w3)
    note 3 = send_loop_done [OF sl]
    then have a3: "accounted w3 = accounted w + 1"
      using exactly_one_accounted [of r ?w2 w3] c by (simp add: calm_def accounted_def)
    have r3: "row_step w w3"
      using 3 a3 c by (auto simp: row_step_def calm_def)
    show ?thesis
    proof (cases "progress_percent i tot")
      case (Inl e)
      then show ?thesis using sl r3 by (simp add: process_row_v1_unfold)
    next
      case (Inr p)
      let ?w5 = "emit (Log_waiting delay) (emit (Progress p) w3)"
      have "calm w3 ?w5"
        using calm_emit calm_trans by blast
      moreover have "calm ?w5 (state_of (time_sleep delay ?w5))"
        by (rule time_sleep_calm)
      ultimately have "calm w3 (state_of (time_sleep delay ?w5))"
        using calm_trans by blast
      then have "row_step w (state_of (time_sleep delay ?w5))"
        using r3 by (auto simp: row_step_def calm_def accounted_def)
      then show ?thesis using sl Inr by (simp add: process_row_v1_unfold)
    qed
  qed
qed

lemma run_loop_v1_done:
  "run_loop_v1 delay tot i rs w = Done u w' \<Longrightarrow>
   \<exists>pre. running_reads w = pre @ running_reads w' \<and>
     (if False \<in> set pre then accounted w' < accounted w + length rs
      else accounted w' = accounted w + length rs)"
proof (induction rs arbitrary: i w)
  case Nil
  then show ?case by simp
next
  case (Cons r rest)
  from Cons.prems obtain u1 w1 where wp: "wait_pause w = Done u1 w1"
    by (cases "wait_pause w") auto
  then have c1: "calm w w1"
    using wait_pause_calm [of w] by simp
  from Cons.prems wp obtain b w2 where rr: "read_running w1 = Done b w2"
    by (cases "read_running w1") auto
  note r2 = read_running_done [OF rr]
  show ?case
  proof (cases b)
    case b: False
    then have "w' = w2"
      using Cons.prems wp rr by simp
    then show ?thesis
      using c1 r2 b by (intro exI [of _ "[False]"]) (simp add: calm_def accounted_def)
  next
    case b: True
    from Cons.prems wp rr b obtain u3 w3 where
      pr: "process_row_v1 delay tot i r w2 = Done u3 w3"
      by (cases "process_row_v1 delay tot i r w2") auto
    note p3 = process_row_v1_done [OF pr]
    have a3: "accounted w3 = accounted w + 1"
      using p3 exactly_one_accounted [of r w2 w3] r2 c1 by (simp add: calm_def accounted_def)
    have "run_loop_v1 delay tot (Suc i) rest w3 = Done u w'"
      using Cons.prems wp rr b pr by simp
    from Cons.IH [OF this] obtain pre where pre:
      "running_reads w3 = pre @ running_reads w'"
      "if False \<in> set pre then accounted w' < accounted w3 + length rest
       else accounted w' = accounted w3 + length rest"
      by blast
    have rw: "running_reads w = (True # pre) @ running_reads w'"
      using c1 r2 p3 pre(1) b by (simp add: calm_def)
    show ?thesis
      using rw pre(2) a3
      by (intro exI [of _ "True # pre"]) (auto split: if_splits)
  qed
qed

lemma run_loop_v1_any:
  "accounted w \<le> accounted (state_of (run_loop_v1 delay tot i rs w)) \<and>
   accounted (state_of (run_loop_v1 delay tot i rs w)) \<le> accounted w + length rs \<and>
   prefix (trace w) (trace (state_of (run_loop_v1 delay tot i rs w)))"
proof (induction rs arbitrary: i w)
  case Nil
  then show ?case by simp
next
  case (Cons r rest)
  have c1: "calm w (state_of (wait_pause w))"
    by (rule wait_pause_calm)
  show ?case
  proof (cases "wait_pause w")
    case (Pending w1)
    then show ?thesis using c1 by (simp add: calm_def accounted_def)
  next
    case (Raised e w1)
    then show ?thesis using c1 by (simp add: calm_def accounted_def)
  next
    case wp: (Done u1 w1)
    note r2 = read_running_state [of w1]
    show ?thesis
    proof (cases "read_running w1")
      case (Pending w2)
      then show ?thesis using c1 wp r2 by (simp add: calm_def accounted_def)
    next
      case (Raised e w2)
      then show ?thesis using c1 wp r2 by (simp add: calm_def accounted_def)
    next
      case rr: (Done b w2)
      show ?thesis
      proof (cases b)
        case b: False
        then show ?thesis using c1 wp r2 rr by (simp add: calm_def accounted_def)
      next
        case b: True
        have s3: "row_step w2 (state_of (process_row_v1 delay tot i r w2))"
          by (rule process_row_v1_step)
        have "prefix (trace w) (trace w2)"
          using c1 wp r2 rr by (simp add: calm_def)
        then have t3: "prefix (trace w) (trace (state_of (process_row_v1 delay tot i r w2)))"
          using s3 by (auto simp: row_step_def)
        have s3': "accounted w \<le> accounted (state_of (process_row_v1 delay tot i r w2)) \<and>
            accounted (state_of (process_row_v1 delay tot i r w2)) \<le> accounted w + 1"
          using s3 c1 wp r2 rr by (simp add: row_step_def calm_def accounted_def)
        show ?thesis
        proof (cases "process_row_v1 delay tot i r w2")
          case (Pending w3)
          then show ?thesis using s3' t3 wp rr b by simp
        next
          case (Raised e w3)
          then show ?thesis using s3' t3 wp rr b by simp
        next
          case pr: (Done u3 w3)
          have "run_loop_v1 delay tot i (r # rest) w = run_loop_v1 delay tot (Suc i) rest w3"
            using wp rr b pr by simp
          then show ?thesis
            using Cons.IH [where i = "Suc i" and w = w3] s3' t3 pr by auto
        qed
      qed
    qed
  qed
qed

definition started_v1 :: "dataframe \<Rightarrow> world \<Rightarrow> world" where
  "started_v1 df w = (emit (Total_contacts (length (rows df))) (init_worker w))\<lparr>sent_count := 0\<rparr>"

lemma started_v1_fields:
  "accounted (started_v1 df w) = 0" "running_reads (started_v1 df w) = running_reads w"
  by (simp_all add: started_v1_def accounted_def emit_def act_def init_worker_def)

lemma start_sending_v1_unfold:
  assumes "excel w = Inr df"
    and "find (\<lambda>col. col \<notin> set (columns df)) required_columns = None"
  shows "start_sending_v1 delay w =
           (case run_loop_v1 delay (length (rows df)) 0 (rows df) (started_v1 df w) of
              Pending w4 \<Rightarrow> Pending w4
            | Raised e w4 \<Rightarrow> Raised e w4
            | Done u w4 \<Rightarrow> finish w4)"
  using assms
  by (simp add: start_sending_v1_def run_v1_def started_v1_def init_worker_def Let_def)

lemma run_v1_bounded:
  assumes "excel w = Inr df"
    and "find (\<lambda>col. col \<notin> set (columns df)) required_columns = None"
  shows "accounted (state_of (start_sending_v1 delay w)) \<le> length (rows df)"
proof -
  let ?l = "run_loop_v1 delay (length (rows df)) 0 (rows df) (started_v1 df w)"
  have b: "accounted (state_of ?l) \<le> length (rows df)"
    using run_loop_v1_any [of "started_v1 df w" delay "length (rows df)" 0 "rows df"]
    by (simp add: started_v1_fields)
  show ?thesis
  proof (cases ?l)
    case (Done u w4)
    then show ?thesis
      using b finish_state [of w4] by (simp add: start_sending_v1_unfold [OF assms] accounted_def)
  next
    case (Raised e w4)
    then show ?thesis
      using b by (simp add: start_sending_v1_unfold [OF assms])
  next
    case (Pending w4)
    then show ?thesis
      using b by (simp add: start_sending_v1_unfold [OF assms])
  qed
qed

lemma run_v1_done:
  assumes "excel w = Inr df"
    and "find (\<lambda>col. col \<notin> set (columns df)) required_columns = None"
    and "start_sending_v1 delay w = Done u w'"
  shows "if cancelled w w' then accounted w' < length (rows df)
         else accounted w' = length (rows df)"
proof -
  let ?l = "run_loop_v1 delay (length (rows df)) 0 (rows df) (started_v1 df w)"
  from assms(3) obtain u4 w4 where l: "?l = Done u4 w4" and f: "finish w4 = Done u w'"
    by (cases ?l) (auto simp: start_sending_v1_unfold [OF assms(1-2)])
  from run_loop_v1_done [OF l] obtain pre where pre:
    "running_reads (started_v1 df w) = pre @ running_reads w4"
    "if False \<in> set pre then accounted w4 < accounted (started_v1 df w) + length (rows df)
     else accounted w4 = accounted (started_v1 df w) + length (rows df)"
    by blast
  have fs: "accounted w' = accounted w4" "running_reads w' = running_reads w4"
    using finish_state [of w4] f by (simp_all add: accounted_def)
  have "running_reads w = pre @ running_reads w'"
    using pre(1) fs by (simp add: started_v1_fields)
  then have "cancelled w w' = (False \<in> set pre)"
    by (rule cancelled_iff)
  then show ?thesis
    using pre(2) fs by (auto simp: started_v1_fields split: if_splits)
qed

section \<open>Sample data\<close>

definition sample_row :: row where
  "sample_row =
     \<lparr>from_email = ''ann@example.com'', password = ''secret'', sal = ''Jane'',
      signature = ''Ann'', to_email = ''jane@example.com'', subject = ''Hello'',
      html_file = ''body.html''\<rparr>"

definition sample_sheet :: dataframe where
  "sample_sheet = \<lparr>columns = required_columns, rows = [sample_row]\<rparr>"

text \<open>
  A state in which a run over the sample sheet goes through: nobody pauses or stops the
  worker, the SMTP session and the write of the checkpoint succeed.
\<close>

definition sample_world :: world where
  "sample_world =
     \<lparr>excel = Inr sample_sheet,
      html_files = [(''body.html'', Inr ''Dear {sal},'')],
      checkpoint_file = Ck_absent,
      pause_reads = [False, False],
      running_reads = [True],
      smtp_results = [None],
      network_results = [],
      save_results = [None],
      report_results = [],
      failed_emails = [],
      sent_count = 0,
      trace = []\<rparr>"

lemma sample_columns:
  "find (\<lambda>col. col \<notin> set (columns sample_sheet)) required_columns = None"
  by (simp add: sample_sheet_def required_columns_def)

text \<open>The states in which the two versions end their run over the sample sheet.\<close>

definition sample_done :: world where
  "sample_done =
     sample_world\<lparr>checkpoint_file := Ck_content ''1'', pause_reads := [], running_reads := [],
       smtp_results := [], save_results := [], sent_count := 1,
       trace :=
         [Emit (Total_contacts 1), Emit (Log ''Resuming from row 0''), Open_html ''body.html'',
          Emit (Log ''Sending email to jane@example.com from Ann (row 0)...''),
          Smtp ''ann@example.com'' ''secret'' ''jane@example.com''
            \<lparr>msg_subject = ''Hello'', msg_from = ''Ann <ann@example.com>'',
             msg_to = ''jane@example.com'', msg_body = ''Dear Jane,''\<rparr>,
          Emit (Log ''Email sent successfully!''), Emit (Emails_sent 1), Save_checkpoint 1,
          Emit (Progress 100), Emit (Log_waiting 1), Sleep 1,
          Emit (Log (''Finished sending emails.'' @ [CHR 0x0A])), Emit Finished]\<rparr>"

lemma sample_run: "start_sending 1 sample_world = Done () sample_done"
  by code_simp

definition sample_done_v1 :: world where
  "sample_done_v1 =
     sample_world\<lparr>pause_reads := [], running_reads := [], smtp_results := [], sent_count := 1,
       trace :=
         [Emit (Total_contacts 1), Open_html ''body.html'',
          Emit (Log ''Sending email to jane@example.com from Ann...''),
          Smtp ''ann@example.com'' ''secret'' ''jane@example.com''
            \<lparr>msg_subject = ''Hello'', msg_from = ''Ann <ann@example.com>'',
             msg_to = ''jane@example.com'', msg_body = ''Dear Jane,''\<rparr>,
          Emit (Log ''Email sent successfully!''), Emit (Emails_sent 1),
          Emit (Progress 100), Emit (Log_waiting 1), Sleep 1,
          Emit (Log (''Finished sending emails.'' @ [CHR 0x0A])), Emit Finished]\<rparr>"

lemma sample_run_v1: "start_sending_v1 1 sample_world = Done () sample_done_v1"
  by code_simp

lemma sample_load: "load_checkpoint (checkpoint_file sample_world) = Inr 0"
  by (simp add: sample_world_def load_checkpoint_def)

lemma sample_excel: "excel sample_world = Inr sample_sheet"
  by (simp add: sample_world_def)

lemma sample_not_cancelled: "\<not> cancelled sample_world sample_done" "\<not> cancelled sample_world sample_done_v1"
  by (simp_all add: cancelled_def sample_world_def sample_done_def sample_done_v1_def)

section \<open>A run that starts at or beyond the end of the sheet\<close>

text \<open>
  C10: when the sheet is read, has the required columns, and the checkpoint loaded at the
  start is at least the number of rows, the run returns, and all it did is emit the total,
  the line \<^verbatim>\<open>Resuming from row c\<close>, the line \<^verbatim>\<open>Finished sending emails.\<close> and the
  finished signal, once each: no SMTP session, no progress or sent-count signal, no report,
  no write of the checkpoint.
\<close>

theorem checkpoint_at_end_processes_nothing:
  assumes "excel w = Inr df"
    and "find (\<lambda>col. col \<notin> set (columns df)) required_columns = None"
    and "load_checkpoint (checkpoint_file w) = Inr c"
    and "int (length (rows df)) \<le> c"
  shows "start_sending delay w =
           Done () (w\<lparr>failed_emails := [], sent_count := 0,
                      trace := trace w @
                        [Emit (Total_contacts (length (rows df))),
                         Emit (Log (''Resuming from row '' @ str_int c)),
                         Emit (Log (''Finished sending emails.'' @ [CHR 0x0A])),
                         Emit Finished]\<rparr>)"
  using assms by (intro run_nothing_to_do) simp_all

theorem checkpoint_at_end_processes_nothing_witness:
  "excel (sample_world\<lparr>checkpoint_file := Ck_content ''1''\<rparr>) = Inr sample_sheet \<and>
   find (\<lambda>col. col \<notin> set (columns sample_sheet)) required_columns = None \<and>
   load_checkpoint (checkpoint_file (sample_world\<lparr>checkpoint_file := Ck_content ''1''\<rparr>)) = Inr 1 \<and>
   int (length (rows sample_sheet)) \<le> 1 \<and>
   start_sending 2 (sample_world\<lparr>checkpoint_file := Ck_content ''1''\<rparr>) =
     Done () (sample_world\<lparr>checkpoint_file := Ck_content ''1'', failed_emails := [], sent_count := 0,
                trace := [Emit (Total_contacts 1), Emit (Log ''Resuming from row 1''),
                          Emit (Log (''Finished sending emails.'' @ [CHR 0x0A])), Emit Finished]\<rparr>)"
proof -
  let ?w = "sample_world\<lparr>checkpoint_file := Ck_content ''1''\<rparr>"
  have h1: "excel ?w = Inr sample_sheet"
    by (simp add: sample_world_def)
  have h3: "load_checkpoint (checkpoint_file ?w) = Inr 1"
    by (simp add: load_checkpoint_def py_int_def py_strip_def is_space_def parse_digits_def
        is_digit_def digit_val_def)
  have h4: "int (length (rows sample_sheet)) \<le> 1"
    by (simp add: sample_sheet_def)
  have s1: "str_int 1 = ''1''"
    by code_simp
  show ?thesis
    using checkpoint_at_end_processes_nothing [OF h1 sample_columns h3 h4, of 2] h1 h3 h4
      sample_columns s1
    by (simp add: sample_world_def sample_sheet_def)
qed

section \<open>Sent count and failure list against the total\<close>

text \<open>
  C1: for a sheet that is read and has the required columns, in both versions and whatever
  the outcome of the run (returned, raised, or waiting for the environment, paused or not),
  the sent count plus the length of the failure list is at most the number of rows. When
  the run returns, equality holds exactly when no row was skipped or cut off: in version
  1.2 the checkpoint loaded at the start is at most 0 (or the sheet is empty) and no read of
  \<^verbatim>\<open>self._running\<close> returned false; in version 1 no read of \<^verbatim>\<open>self._running\<close> returned
  false. A row whose processing ends adds one to exactly one of the two counts.
\<close>

theorem sent_plus_failed_within_total:
  assumes "excel w = Inr df"
    and "find (\<lambda>col. col \<notin> set (columns df)) required_columns = None"
  shows
    "(\<forall>c. load_checkpoint (checkpoint_file w) = Inr c \<longrightarrow>
        sent_count (state_of (start_sending delay w))
          + length (failed_emails (state_of (start_sending delay w))) \<le> length (rows df) \<and>
        (\<forall>u w'. start_sending delay w = Done u w' \<longrightarrow>
           (sent_count w' + length (failed_emails w') = length (rows df))
             = ((c \<le> 0 \<or> rows df = []) \<and> \<not> cancelled w w'))) \<and>
     sent_count (state_of (start_sending_v1 delay w))
       + length (failed_emails (state_of (start_sending_v1 delay w))) \<le> length (rows df) \<and>
     (\<forall>u w'. start_sending_v1 delay w = Done u w' \<longrightarrow>
        (sent_count w' + length (failed_emails w') = length (rows df)) = (\<not> cancelled w w')) \<and>
     (\<forall>tot i r w0 u w1. process_row delay tot i r w0 = Done u w1 \<longrightarrow> exactly_one r w0 w1) \<and>
     (\<forall>tot i r w0 u w1. process_row_v1 delay tot i r w0 = Done u w1 \<longrightarrow> exactly_one r w0 w1)"
proof (intro conjI allI impI)
  fix c
  assume c: "load_checkpoint (checkpoint_file w) = Inr c"
  show "sent_count (state_of (start_sending delay w))
          + length (failed_emails (state_of (start_sending delay w))) \<le> length (rows df)"
    using run_bounded [OF assms c, of delay] by (simp add: accounted_def)
  fix u w'
  assume d: "start_sending delay w = Done u w'"
  have e: "(length (rows df) - nat c = length (rows df)) = (c \<le> 0 \<or> rows df = [])"
    by (cases "rows df") auto
  show "(sent_count w' + length (failed_emails w') = length (rows df))
          = ((c \<le> 0 \<or> rows df = []) \<and> \<not> cancelled w w')"
    using run_done [OF assms c d] e by (auto simp: accounted_def split: if_splits)
next
  show "sent_count (state_of (start_sending_v1 delay w))
       + length (failed_emails (state_of (start_sending_v1 delay w))) \<le> length (rows df)"
    using run_v1_bounded [OF assms, of delay] by (simp add: accounted_def)
next
  fix u w'
  assume d: "start_sending_v1 delay w = Done u w'"
  show "(sent_count w' + length (failed_emails w') = length (rows df)) = (\<not> cancelled w w')"
    using run_v1_done [OF assms d] by (auto simp: accounted_def split: if_splits)
next
  fix tot i r w0 u w1
  assume "process_row delay tot i r w0 = Done u w1"
  then show "exactly_one r w0 w1"
    using process_row_done by blast
next
  fix tot i r w0 u w1
  assume "process_row_v1 delay tot i r w0 = Done u w1"
  then show "exactly_one r w0 w1"
    using process_row_v1_done by blast
qed


theorem sent_plus_failed_within_total_witness:
  "excel sample_world = Inr sample_sheet \<and>
   find (\<lambda>col. col \<notin> set (columns sample_sheet)) required_columns = None \<and>
   load_checkpoint (checkpoint_file sample_world) = Inr 0 \<and>
   start_sending 1 sample_world = Done () sample_done \<and>
   sent_count sample_done + length (failed_emails sample_done) = length (rows sample_sheet) \<and>
   \<not> cancelled sample_world sample_done \<and>
   start_sending_v1 1 sample_world = Done () sample_done_v1 \<and>
   sent_count sample_done_v1 + length (failed_emails sample_done_v1) = length (rows sample_sheet) \<and>
   \<not> cancelled sample_world sample_done_v1 \<and>
   process_row 1 1 0 sample_row (sample_world\<lparr>pause_reads := [False], running_reads := []\<rparr>)
     = Done () (state_of (process_row 1 1 0 sample_row
                  (sample_world\<lparr>pause_reads := [False], running_reads := []\<rparr>))) \<and>
   exactly_one sample_row (sample_world\<lparr>pause_reads := [False], running_reads := []\<rparr>)
     (state_of (process_row 1 1 0 sample_row
        (sample_world\<lparr>pause_reads := [False], running_reads := []\<rparr>))) \<and>
   process_row_v1 1 1 0 sample_row (sample_world\<lparr>pause_reads := [False], running_reads := []\<rparr>)
     = Done () (state_of (process_row_v1 1 1 0 sample_row
                  (sample_world\<lparr>pause_reads := [False], running_reads := []\<rparr>))) \<and>
   exactly_one sample_row (sample_world\<lparr>pause_reads := [False], running_reads := []\<rparr>)
     (state_of (process_row_v1 1 1 0 sample_row
        (sample_world\<lparr>pause_reads := [False], running_reads := []\<rparr>)))"
proof -
  let ?w0 = "sample_world\<lparr>pause_reads := [False], running_reads := []\<rparr>"
  have p: "process_row 1 1 0 sample_row ?w0 = Done () (state_of (process_row 1 1 0 sample_row ?w0))"
    by code_simp
  have p1: "process_row_v1 1 1 0 sample_row ?w0
              = Done () (state_of (process_row_v1 1 1 0 sample_row ?w0))"
    by code_simp
  have n: "sent_count sample_done + length (failed_emails sample_done) = length (rows sample_sheet)"
    "sent_count sample_done_v1 + length (failed_emails sample_done_v1) = length (rows sample_sheet)"
    by (simp_all add: sample_done_def sample_done_v1_def sample_world_def sample_sheet_def)
  show ?thesis
    using sent_plus_failed_within_total [OF sample_excel sample_columns, of 1]
      sample_excel sample_columns sample_load sample_run sample_run_v1 sample_not_cancelled p p1 n
    by blast
qed

section \<open>The checkpoint after each row\<close>

lemma save_checkpoint_done_trace:
  "save_checkpoint k w = Done u w' \<Longrightarrow> trace w' = trace w @ [Save_checkpoint k]"
  by (auto simp: save_checkpoint_def act_def Let_def split: list.splits option.splits)

lemma time_sleep_done: "time_sleep d w = Done u w' \<Longrightarrow> w' = act (Sleep d) w"
  by (auto simp: time_sleep_def Let_def split: if_splits)

lemma process_row_done_trace:
  assumes "process_row delay tot i r w = Done u w'"
  shows "\<exists>t p. trace w' = trace w @ t @
           [Save_checkpoint (int i + 1), Emit (Progress p), Emit (Log_waiting delay), Sleep delay]"
proof -
  let ?w2 = "announced i r w"
  have c: "calm w ?w2" by (rule calm_announced)
  from assms obtain u3 w3 where sl: "send_loop r (rendered r w) ?w2 = Done u3 w3"
    by (cases "send_loop r (rendered r w) ?w2") (auto simp: process_row_unfold)
  from assms sl obtain u4 w4 where sc: "save_checkpoint (int i + 1) w3 = Done u4 w4"
    by (cases "save_checkpoint (int i + 1) w3") (auto simp: process_row_unfold)
  from assms sl sc obtain p where pp: "progress_percent i tot = Inr p"
    by (cases "progress_percent i tot") (auto simp: process_row_unfold)
  let ?w5 = "emit (Log_waiting delay) (emit (Progress p) w4)"
  from assms sl sc pp have ts: "time_sleep delay ?w5 = Done u w'"
    by (simp add: process_row_unfold)
  have "prefix (trace w) (trace w3)"
    using c send_loop_done [OF sl] by (auto simp: calm_def)
  then obtain t where t: "trace w3 = trace w @ t"
    by (auto simp: prefix_def)
  have "trace w' = trace w3 @
           [Save_checkpoint (int i + 1), Emit (Progress p), Emit (Log_waiting delay), Sleep delay]"
    using time_sleep_done [OF ts] save_checkpoint_done_trace [OF sc]
    by (simp add: emit_def act_def)
  with t show ?thesis by auto
qed

text \<open>
  C3: when the processing of the row at index \<open>k\<close> ends and the loop goes on, the row was
  either sent or recorded as failed, and in both cases the checkpoint \<open>k + 1\<close> was written
  before the progress signal and the sleep that close the iteration: the file holds
  \<open>k + 1\<close>, \<^verbatim>\<open>load_checkpoint\<close> reads \<open>k + 1\<close> from it, and a loop that starts with a
  checkpoint of at least \<open>k + 1\<close> passes over row \<open>k\<close> and all rows before it without
  touching the state.
\<close>

theorem checkpoint_saved_after_each_row:
  assumes "process_row delay tot k r w = Done u w'"
  shows "exactly_one r w w' \<and>
         checkpoint_file w' = Ck_content (str_int (int k + 1)) \<and>
         load_checkpoint (checkpoint_file w') = Inr (int k + 1) \<and>
         (\<exists>t p. trace w' = trace w @ t @
            [Save_checkpoint (int k + 1), Emit (Progress p), Emit (Log_waiting delay), Sleep delay]) \<and>
         (\<forall>c pre rest d2 tot2 w2. int k + 1 \<le> c \<and> length pre = k \<longrightarrow>
            run_loop d2 tot2 c 0 (pre @ r # rest) w2 = run_loop d2 tot2 c (Suc k) rest w2)"
proof -
  note d = process_row_done [OF assms]
  have skip: "run_loop d2 tot2 c 0 (pre @ r # rest) w2 = run_loop d2 tot2 c (Suc k) rest w2"
    if "int k + 1 \<le> c" and "length pre = k" for c pre rest d2 tot2 w2
    using run_loop_skip [of 0 "pre @ [r]" c d2 tot2 rest w2] that by simp
  show ?thesis
    using d process_row_done_trace [OF assms] skip
    by (simp add: load_checkpoint_saved)
qed

theorem checkpoint_saved_after_each_row_witness:
  "process_row 1 1 0 sample_row
     (sample_world\<lparr>pause_reads := [False], running_reads := [],
        smtp_results := [Some ''bad address''], network_results := [True]\<rparr>)
     = Done () (state_of (process_row 1 1 0 sample_row
         (sample_world\<lparr>pause_reads := [False], running_reads := [],
            smtp_results := [Some ''bad address''], network_results := [True]\<rparr>))) \<and>
   failed_emails (state_of (process_row 1 1 0 sample_row
         (sample_world\<lparr>pause_reads := [False], running_reads := [],
            smtp_results := [Some ''bad address''], network_results := [True]\<rparr>)))
     = [failure_entry sample_row ''bad address''] \<and>
   checkpoint_file (state_of (process_row 1 1 0 sample_row
         (sample_world\<lparr>pause_reads := [False], running_reads := [],
            smtp_results := [Some ''bad address''], network_results := [True]\<rparr>)))
     = Ck_content ''1'' \<and>
   load_checkpoint (Ck_content ''1'') = Inr 1 \<and>
   (0::int) + 1 \<le> 1 \<and> length ([] :: row list) = 0 \<and>
   run_loop 1 1 1 0 ([] @ sample_row # []) sample_world = run_loop 1 1 1 (Suc 0) [] sample_world"
proof -
  let ?w = "sample_world\<lparr>pause_reads := [False], running_reads := [],
        smtp_results := [Some ''bad address''], network_results := [True]\<rparr>"
  have p: "process_row 1 1 0 sample_row ?w = Done () (state_of (process_row 1 1 0 sample_row ?w))"
    by code_simp
  have f: "failed_emails (state_of (process_row 1 1 0 sample_row ?w))
             = [failure_entry sample_row ''bad address'']"
    by code_simp
  have s: "str_int (int 0 + 1) = ''1''"
    by code_simp
  have l: "load_checkpoint (Ck_content ''1'') = Inr 1"
    using load_checkpoint_saved [of 1] s by simp
  show ?thesis
    using checkpoint_saved_after_each_row [OF p] p f s l by simp
qed

section \<open>Resuming from the checkpoint\<close>

text \<open>
  C2: the loop started with the checkpoint \<open>c\<close> does to a sheet whose first rows all lie
  below \<open>c\<close> exactly what it does to the rest of the sheet from the index of the first
  remaining row on: the rows below \<open>c\<close> leave the state as it is (no template opened, no
  SMTP session, no failure entry, no write of the checkpoint, no signal). And when a run
  over a valid sheet has returned without a false read of \<^verbatim>\<open>self._running\<close>, a new run
  over the same sheet that finds the checkpoint file as the first run left it returns
  whatever its environment, after the total, the line \<^verbatim>\<open>Resuming from row c1\<close>, the line
  \<^verbatim>\<open>Finished sending emails.\<close> and the finished signal, and nothing else.
\<close>

theorem resume_skips_rows_below_checkpoint:
  "(int (length pre) \<le> c \<longrightarrow>
      run_loop delay tot c 0 (pre @ rest) w0 = run_loop delay tot c (length pre) rest w0) \<and>
   (excel w = Inr df \<and>
    find (\<lambda>col. col \<notin> set (columns df)) required_columns = None \<and>
    load_checkpoint (checkpoint_file w) = Inr c0 \<and>
    start_sending delay w = Done u w1 \<and> \<not> cancelled w w1 \<and>
    excel w2 = Inr df \<and> checkpoint_file w2 = checkpoint_file w1 \<longrightarrow>
      (\<exists>c1. load_checkpoint (checkpoint_file w1) = Inr c1 \<and>
         start_sending delay2 w2 =
           Done () (w2\<lparr>failed_emails := [], sent_count := 0,
                      trace := trace w2 @
                        [Emit (Total_contacts (length (rows df))),
                         Emit (Log (''Resuming from row '' @ str_int c1)),
                         Emit (Log (''Finished sending emails.'' @ [CHR 0x0A])),
                         Emit Finished]\<rparr>)))"
proof (intro conjI impI)
  assume "int (length pre) \<le> c"
  then show "run_loop delay tot c 0 (pre @ rest) w0 = run_loop delay tot c (length pre) rest w0"
    using run_loop_skip [of 0 pre c delay tot rest w0] by simp
next
  assume a: "excel w = Inr df \<and>
    find (\<lambda>col. col \<notin> set (columns df)) required_columns = None \<and>
    load_checkpoint (checkpoint_file w) = Inr c0 \<and>
    start_sending delay w = Done u w1 \<and> \<not> cancelled w w1 \<and>
    excel w2 = Inr df \<and> checkpoint_file w2 = checkpoint_file w1"
  then have ex: "excel w = Inr df"
    and cols: "find (\<lambda>col. col \<notin> set (columns df)) required_columns = None"
    and ld: "load_checkpoint (checkpoint_file w) = Inr c0"
    and run1: "start_sending delay w = Done u w1" and nc: "\<not> cancelled w w1"
    and ex2: "excel w2 = Inr df" and ck2: "checkpoint_file w2 = checkpoint_file w1"
    by simp_all
  let ?n = "length (rows df)"
  have ck: "checkpoint_file w1 =
              (if ?n \<le> nat c0 then checkpoint_file w else Ck_content (str_int (int ?n)))"
    using run_done [OF ex cols ld run1] nc by simp
  define c1 where "c1 = (if ?n \<le> nat c0 then c0 else int ?n)"
  have l1: "load_checkpoint (checkpoint_file w1) = Inr c1"
    using ck ld by (simp add: c1_def load_checkpoint_saved)
  have beyond: "int ?n \<le> c1 \<or> rows df = []"
  proof (cases "?n \<le> nat c0")
    case True
    then have "int ?n \<le> c0 \<or> ?n = 0"
      by linarith
    with True show ?thesis by (simp add: c1_def)
  next
    case False
    then show ?thesis by (simp add: c1_def)
  qed
  have l2: "load_checkpoint (checkpoint_file w2) = Inr c1"
    using l1 ck2 by simp
  show "\<exists>c1. load_checkpoint (checkpoint_file w1) = Inr c1 \<and>
         start_sending delay2 w2 =
           Done () (w2\<lparr>failed_emails := [], sent_count := 0,
                      trace := trace w2 @
                        [Emit (Total_contacts (length (rows df))),
                         Emit (Log (''Resuming from row '' @ str_int c1)),
                         Emit (Log (''Finished sending emails.'' @ [CHR 0x0A])),
                         Emit Finished]\<rparr>)"
    using l1 run_nothing_to_do [OF ex2 cols l2 beyond, of delay2] by blast
qed

theorem resume_skips_rows_below_checkpoint_witness:
  "int (length [sample_row]) \<le> 1 \<and>
   run_loop 1 1 1 0 ([sample_row] @ []) sample_world = Done () sample_world \<and>
   excel sample_world = Inr sample_sheet \<and>
   find (\<lambda>col. col \<notin> set (columns sample_sheet)) required_columns = None \<and>
   load_checkpoint (checkpoint_file sample_world) = Inr 0 \<and>
   start_sending 1 sample_world = Done () sample_done \<and> \<not> cancelled sample_world sample_done \<and>
   excel (sample_done\<lparr>trace := []\<rparr>) = Inr sample_sheet \<and>
   checkpoint_file (sample_done\<lparr>trace := []\<rparr>) = checkpoint_file sample_done \<and>
   load_checkpoint (checkpoint_file sample_done) = Inr 1 \<and>
   start_sending 2 (sample_done\<lparr>trace := []\<rparr>) =
     Done () (sample_done\<lparr>failed_emails := [], sent_count := 0,
                trace := [Emit (Total_contacts 1), Emit (Log ''Resuming from row 1''),
                          Emit (Log (''Finished sending emails.'' @ [CHR 0x0A])), Emit Finished]\<rparr>)"
proof -
  have h0: "int (length [sample_row]) \<le> 1"
    by simp
  have e2: "excel (sample_done\<lparr>trace := []\<rparr>) = Inr sample_sheet"
    by (simp add: sample_done_def sample_world_def)
  have s1: "str_int 1 = ''1''"
    by code_simp
  have l1: "load_checkpoint (checkpoint_file sample_done) = Inr 1"
    using load_checkpoint_saved [of 1] s1 by (simp add: sample_done_def)
  have n: "length (rows sample_sheet) = 1"
    by (simp add: sample_sheet_def)
  have hyp: "excel sample_world = Inr sample_sheet \<and>
    find (\<lambda>col. col \<notin> set (columns sample_sheet)) required_columns = None \<and>
    load_checkpoint (checkpoint_file sample_world) = Inr 0 \<and>
    start_sending 1 sample_world = Done () sample_done \<and> \<not> cancelled sample_world sample_done \<and>
    excel (sample_done\<lparr>trace := []\<rparr>) = Inr sample_sheet \<and>
    checkpoint_file (sample_done\<lparr>trace := []\<rparr>) = checkpoint_file sample_done"
    using sample_excel sample_columns sample_load sample_run sample_not_cancelled(1) e2 by simp
  note t = resume_skips_rows_below_checkpoint
    [where pre = "[sample_row]" and c = 1 and delay = 1 and tot = 1 and rest = "[]"
       and ?w0.0 = sample_world and w = sample_world and df = sample_sheet and ?c0.0 = 0
       and ?w1.0 = sample_done and ?w2.0 = "sample_done\<lparr>trace := []\<rparr>" and ?delay2.0 = 2]
  have a: "run_loop 1 1 1 0 ([sample_row] @ []) sample_world = Done () sample_world"
    using t h0 by simp
  have b: "start_sending 2 (sample_done\<lparr>trace := []\<rparr>) =
     Done () (sample_done\<lparr>failed_emails := [], sent_count := 0,
                trace := [Emit (Total_contacts 1), Emit (Log ''Resuming from row 1''),
                          Emit (Log (''Finished sending emails.'' @ [CHR 0x0A])), Emit Finished]\<rparr>)"
    using t hyp l1 s1 n by auto
  show ?thesis
    using h0 a hyp l1 b by simp
qed

section \<open>Exceptions that leave the run\<close>

text \<open>
  C6: \<^verbatim>\<open>load_checkpoint\<close> is to return 0 for a checkpoint file that exists and cannot be
  read. When the file exists and \<^verbatim>\<open>open\<close> raises (here for a missing read permission),
  the exception leaves \<^verbatim>\<open>load_checkpoint\<close>, and the run of the sample sheet ends with it
  right after the total was emitted: no row is processed and the finished signal is not
  emitted.
\<close>

theorem load_checkpoint_open_error_aborts_run:
  "load_checkpoint (Ck_open_error ''[Errno 13] Permission denied'')
     = Inl (OSError ''[Errno 13] Permission denied'') \<and>
   start_sending 1 (sample_world\<lparr>checkpoint_file := Ck_open_error ''[Errno 13] Permission denied''\<rparr>)
     = Raised (OSError ''[Errno 13] Permission denied'')
         (sample_world\<lparr>checkpoint_file := Ck_open_error ''[Errno 13] Permission denied'',
            trace := [Emit (Total_contacts 1)]\<rparr>)"
  by code_simp

text \<open>
  C5: no exception is to leave \<^verbatim>\<open>run\<close>. In version 1.2, over the sample sheet, when the
  write of the checkpoint raises after the first message was sent (here for a full disk),
  the exception leaves \<^verbatim>\<open>run\<close>: the run ends raised, with one message sent, and neither
  the progress nor the finished signal is emitted.
\<close>

theorem checkpoint_write_error_escapes_run:
  "start_sending 1 (sample_world\<lparr>save_results := [Some (''[Errno 28] No space left on device'', Ck_content [])]\<rparr>)
     = Raised (OSError ''[Errno 28] No space left on device'')
         (sample_world\<lparr>checkpoint_file := Ck_content [], pause_reads := [], running_reads := [],
            smtp_results := [], save_results := [], sent_count := 1,
            trace :=
              [Emit (Total_contacts 1), Emit (Log ''Resuming from row 0''), Open_html ''body.html'',
               Emit (Log ''Sending email to jane@example.com from Ann (row 0)...''),
               Smtp ''ann@example.com'' ''secret'' ''jane@example.com''
                 \<lparr>msg_subject = ''Hello'', msg_from = ''Ann <ann@example.com>'',
                  msg_to = ''jane@example.com'', msg_body = ''Dear Jane,''\<rparr>,
               Emit (Log ''Email sent successfully!''), Emit (Emails_sent 1), Save_checkpoint 1]\<rparr>)"
  by code_simp

section \<open>The progress value\<close>

text \<open>
  Rounding to a double changes a positive value by at most the fraction \<open>2\<^sup>-\<^sup>5\<^sup>3\<close> of it:
  the exponent found by \<open>expo\<close> is not above the binary logarithm of the value, and the
  significand moves by at most one half.
\<close>

lemma pow2_powi: "pow2 e = (2::rat) powi e"
  by (simp add: pow2_def power_int_def field_simps)

lemma pow2_pos: "0 < pow2 e"
  by (simp add: pow2_powi)

lemma round_half_even_error: "\<bar>of_int (round_half_even x) - x\<bar> \<le> 1 / 2"
proof -
  define d where "d = x - of_int \<lfloor>x\<rfloor>"
  have d: "0 \<le> d" "d < 1"
    unfolding d_def by linarith+
  have x: "x = of_int \<lfloor>x\<rfloor> + d"
    by (simp add: d_def)
  have r: "round_half_even x =
      (if d < 1 / 2 then \<lfloor>x\<rfloor> else if 1 / 2 < d then \<lfloor>x\<rfloor> + 1
       else if even \<lfloor>x\<rfloor> then \<lfloor>x\<rfloor> else \<lfloor>x\<rfloor> + 1)"
    by (simp add: round_half_even_def Let_def d_def)
  have "(round_half_even x = \<lfloor>x\<rfloor> \<and> d \<le> 1 / 2) \<or> (round_half_even x = \<lfloor>x\<rfloor> + 1 \<and> 1 / 2 \<le> d)"
  proof (cases "d < 1 / 2")
    case True
    then show ?thesis by (simp add: r)
  next
    case False
    then show ?thesis by (cases "1 / 2 < d"; cases "even \<lfloor>x\<rfloor>") (simp_all add: r)
  qed
  then show ?thesis
  proof
    assume "round_half_even x = \<lfloor>x\<rfloor> \<and> d \<le> 1 / 2"
    then show ?thesis using d by (subst (2) x) simp
  next
    assume "round_half_even x = \<lfloor>x\<rfloor> + 1 \<and> 1 / 2 \<le> d"
    then show ?thesis using d by (subst (2) x) simp
  qed
qed

lemma expo_le:
  assumes "0 < q"
  shows "pow2 (expo q) \<le> q"
proof -
  obtain a b where ab: "quotient_of q = (a, b)"
    by (cases "quotient_of q")
  then have b: "0 < b" and q: "q = of_int a / of_int b"
    using quotient_of_denom_pos [OF ab] quotient_of_div [OF ab] by simp_all
  then have a: "0 < a"
    using assms by (simp add: zero_less_divide_iff)
  let ?e0 = "bitlen a - bitlen b"
  show ?thesis
  proof (cases "q < pow2 ?e0")
    case False
    then show ?thesis
      using ab by (simp add: expo_def)
  next
    case True
    have la: "(2::rat) powi (bitlen a - 1) \<le> of_int a"
    proof -
      have "bitlen a - 1 \<ge> 0"
        using a bitlen_eq_zero_iff [of a] bitlen_nonneg [of a] by linarith
      then have "(2::rat) powi (bitlen a - 1) = of_int (2 ^ nat (bitlen a - 1))"
        by (simp add: power_int_def)
      also have "\<dots> \<le> of_int a"
        using bitlen_bounds [OF a] by (simp only: of_int_le_iff)
      finally show ?thesis .
    qed
    have lb: "of_int b < (2::rat) powi (bitlen b)"
    proof -
      have "of_int b < (of_int (2 ^ nat (bitlen b)) :: rat)"
        using bitlen_bounds [OF b] by (simp only: of_int_less_iff)
      also have "\<dots> = (2::rat) powi (bitlen b)"
        using bitlen_nonneg [of b] by (simp add: power_int_def)
      finally show ?thesis .
    qed
    have "(2::rat) powi (?e0 - 1) = 2 powi (bitlen a - 1) / 2 powi (bitlen b)"
      using power_int_diff [of "2::rat" "bitlen a - 1" "bitlen b"] by (simp add: algebra_simps)
    also have "\<dots> \<le> of_int a / 2 powi (bitlen b)"
      using la by (simp add: divide_right_mono)
    also have "\<dots> \<le> of_int a / of_int b"
      using lb a b by (simp add: frac_le)
    finally have "pow2 (?e0 - 1) \<le> q"
      using q by (simp add: pow2_powi)
    then show ?thesis
      using True ab by (simp add: expo_def)
  qed
qed

lemma round_binary64_error:
  assumes "0 < q"
  shows "\<bar>round_binary64 q - q\<bar> \<le> q / 2 ^ 53"
proof -
  let ?e = "expo \<bar>q\<bar> - 52"
  let ?p = "pow2 ?e"
  have p: "0 < ?p" by (rule pow2_pos)
  have "round_binary64 q - q = (of_int (round_half_even (q / ?p)) - q / ?p) * ?p"
    using assms p by (simp add: round_binary64_def Let_def algebra_simps)
  then have "\<bar>round_binary64 q - q\<bar> = \<bar>of_int (round_half_even (q / ?p)) - q / ?p\<bar> * ?p"
    using p by (simp add: abs_mult)
  also have "\<dots> \<le> (1 / 2) * ?p"
    using round_half_even_error [of "q / ?p"] p by (simp add: mult_right_mono)
  also have "\<dots> = pow2 (expo q) / 2 ^ 53"
    using assms power_int_diff [of "2::rat" "expo q" 52] by (simp add: pow2_powi)
  also have "\<dots> \<le> q / 2 ^ 53"
    using expo_le [OF assms] by (simp add: divide_right_mono)
  finally show ?thesis .
qed

text \<open>
  The float product \<^verbatim>\<open>((i + 1) / total) * 100\<close> lies within \<open>300 \<cdot> 2\<^sup>-\<^sup>5\<^sup>3\<close> of the exact
  percentage, so its truncation is the floor of the exact percentage or one less.
\<close>

lemma round_binary64_small:
  "round_binary64 1 = 1" "round_binary64 100 = 100"
  by code_simp+

lemma product_error:
  assumes "0 < tot" and "i < tot"
  shows "\<bar>round_binary64 (round_binary64 (of_nat (i + 1) / of_nat tot) * 100)
           - 100 * (of_nat (i + 1) / of_nat tot)\<bar> \<le> 300 * (1 / 2 ^ 53)"
    and "0 < round_binary64 (round_binary64 (of_nat (i + 1) / of_nat tot) * 100)"
proof -
  define u :: rat where "u = 1 / 2 ^ 53"
  define x :: rat where "x = of_nat (i + 1) / of_nat tot"
  define f1 where "f1 = round_binary64 x"
  define f2 where "f2 = round_binary64 (f1 * 100)"
  have u: "0 < u" "u < 1 / 100"
    by (simp_all add: u_def)
  have x: "0 < x" "x \<le> 1"
    using assms by (simp_all add: x_def)
  have "\<bar>f1 - x\<bar> \<le> x * u"
    using round_binary64_error [OF x(1)] by (simp add: f1_def u_def)
  then have f1: "x - x * u \<le> f1" "f1 \<le> x + x * u"
    by (simp_all add: abs_le_iff algebra_simps)
  have "0 < x * (1 - u)"
    using x u by (intro mult_pos_pos) simp_all
  then have f1pos: "0 < f1"
    using f1(1) by (simp add: algebra_simps)
  have xu: "x * u \<le> u"
    using x u by (simp add: mult_left_le_one_le)
  have f1b: "f1 \<le> 1 + u"
    using f1(2) x xu by linarith
  have "\<bar>f2 - f1 * 100\<bar> \<le> f1 * 100 * u"
    using round_binary64_error [of "f1 * 100"] f1pos by (simp add: f2_def u_def)
  then have f2: "f1 * 100 - f1 * 100 * u \<le> f2" "f2 \<le> f1 * 100 + f1 * 100 * u"
    by (simp_all add: abs_le_iff algebra_simps)
  have "0 < f1 * 100 * (1 - u)"
    using f1pos u by (intro mult_pos_pos) simp_all
  then show "0 < round_binary64 (round_binary64 (of_nat (i + 1) / of_nat tot) * 100)"
    using f2(1) by (simp add: f2_def f1_def x_def algebra_simps)
  define a where "a = f1 * u"
  define b where "b = x * u"
  define c where "c = u * u"
  have a: "a \<le> u + c"
    using f1b u mult_right_mono [of f1 "1 + u" u] by (simp add: a_def c_def algebra_simps)
  have a0: "0 \<le> a"
    using f1pos u by (simp add: a_def)
  have c: "c \<le> u / 100"
    using u by (simp add: c_def mult_left_le_one_le)
  have b: "b \<le> u" "0 \<le> b"
    using xu x u by (simp_all add: b_def)
  have g1: "x - b \<le> f1" "f1 \<le> x + b"
    using f1 by (simp_all add: b_def)
  have g2: "100 * f1 - 100 * a \<le> f2" "f2 \<le> 100 * f1 + 100 * a"
    using f2 by (simp_all add: a_def algebra_simps)
  have up: "f2 \<le> 100 * x + 300 * u"
    using g2 g1 a b c u by linarith
  have lo: "100 * x - 300 * u \<le> f2"
    using g2 g1 a b c u by linarith
  have "\<bar>f2 - 100 * x\<bar> \<le> 300 * u"
    using up lo by (simp add: abs_le_iff)
  then show "\<bar>round_binary64 (round_binary64 (of_nat (i + 1) / of_nat tot) * 100)
           - 100 * (of_nat (i + 1) / of_nat tot)\<bar> \<le> 300 * (1 / 2 ^ 53)"
    unfolding f2_def f1_def x_def u_def .
qed


lemma progress_percent_bounds:
  assumes "0 < tot" and "i < tot" and "tot \<le> 2 ^ 44"
  shows "\<exists>p. progress_percent i tot = Inr p \<and>
           \<lfloor>100 * of_nat (i + 1) / of_nat tot :: rat\<rfloor> - 1 \<le> p \<and>
           p \<le> \<lfloor>100 * of_nat (i + 1) / of_nat tot :: rat\<rfloor> \<and> 0 \<le> p \<and> p \<le> 100"
proof -
  define y :: rat where "y = 100 * (of_nat (i + 1) / of_nat tot)"
  define f2 where "f2 = round_binary64 (round_binary64 (of_nat (i + 1) / of_nat tot) * 100)"
  define n where "n = \<lfloor>y\<rfloor>"
  define v :: rat where "v = 300 * (1 / 2 ^ 53)"
  define k :: rat where "k = 1 / 2 ^ 44"
  define d :: rat where "d = 1 / of_nat tot"
  have "\<bar>f2 - y\<bar> \<le> v" and pos: "0 < f2"
    using product_error [OF assms(1,2)] by (simp_all add: f2_def y_def v_def)
  then have e: "f2 - y \<le> v" "y - f2 \<le> v"
    by (simp_all add: abs_le_iff)
  have vk: "v < k" "v < 1"
    by (simp_all add: v_def k_def)
  have p: "progress_percent i tot = Inr \<lfloor>f2\<rfloor>"
    using assms(1) pos by (simp add: progress_percent_def int_of_float_def f2_def)
  have t: "(0::rat) < of_nat tot" "(of_nat tot :: rat) \<le> 2 ^ 44"
    using assms(1) apply simp
    using assms(3) of_nat_le_iff [of tot "2 ^ 44", where ?'a = rat] by simp
  have y100: "y \<le> 100"
    using assms(1,2) by (simp add: y_def field_simps)
  have n: "of_int n \<le> y" "y < of_int n + 1"
    unfolding n_def by linarith+
  have "of_int n * of_nat tot \<le> y * of_nat tot" "y * of_nat tot < (of_int n + 1) * of_nat tot"
    using n t(1) by (simp_all add: mult_right_mono)
  moreover have yt: "y * of_nat tot = of_int (100 * int (i + 1))"
    using assms(1) by (simp add: y_def)
  ultimately have "(of_int (100 * int (i + 1)) :: rat) < of_int ((n + 1) * int tot)"
    by simp
  then have "100 * int (i + 1) < (n + 1) * int tot"
    by (simp only: of_int_less_iff)
  then have "100 * int (i + 1) + 1 \<le> (n + 1) * int tot"
    by simp
  then have "(of_int (100 * int (i + 1) + 1) :: rat) \<le> of_int ((n + 1) * int tot)"
    by (simp only: of_int_le_iff)
  then have "y * of_nat tot + 1 \<le> (of_int n + 1) * of_nat tot"
    using yt by simp
  then have yd: "y + d \<le> of_int n + 1"
    using t(1) by (simp add: d_def field_simps)
  have kd: "k \<le> d"
    using t by (simp add: k_def d_def frac_le)
  have up: "f2 < of_int n + 1"
    using e vk kd yd by linarith
  have lo: "of_int n - 1 < f2"
    using e vk n by linarith
  have "f2 < of_int (n + 1)"
    using up by simp
  then have "\<lfloor>f2\<rfloor> < n + 1"
    by (simp only: floor_less_iff)
  then have r1: "\<lfloor>f2\<rfloor> \<le> n"
    by simp
  have "of_int (n - 1) \<le> f2"
    using lo by simp
  then have r2: "n - 1 \<le> \<lfloor>f2\<rfloor>"
    by (simp only: le_floor_iff)
  have "of_int 0 \<le> f2"
    using pos by simp
  then have r3: "0 \<le> \<lfloor>f2\<rfloor>"
    by (simp only: le_floor_iff)
  have "y < of_int 101"
    using y100 by simp
  then have "n < 101"
    unfolding n_def by (simp only: floor_less_iff)
  then have r4: "\<lfloor>f2\<rfloor> \<le> 100"
    using r1 by linarith
  have ny: "\<lfloor>100 * of_nat (i + 1) / of_nat tot :: rat\<rfloor> = n"
    by (simp add: n_def y_def)
  show ?thesis
    unfolding ny using p r1 r2 r3 r4 by blast
qed

text \<open>The progress signal of a row carries the value of \<open>progress_percent\<close>.\<close>

lemma process_row_done_progress:
  assumes "process_row delay tot i r w = Done u w'"
  shows "\<exists>t p. progress_percent i tot = Inr p \<and> trace w' = trace w @ t @
           [Save_checkpoint (int i + 1), Emit (Progress p), Emit (Log_waiting delay), Sleep delay]"
proof -
  let ?w2 = "announced i r w"
  have c: "calm w ?w2" by (rule calm_announced)
  from assms obtain u3 w3 where sl: "send_loop r (rendered r w) ?w2 = Done u3 w3"
    by (cases "send_loop r (rendered r w) ?w2") (auto simp: process_row_unfold)
  from assms sl obtain u4 w4 where sc: "save_checkpoint (int i + 1) w3 = Done u4 w4"
    by (cases "save_checkpoint (int i + 1) w3") (auto simp: process_row_unfold)
  from assms sl sc obtain p where pp: "progress_percent i tot = Inr p"
    by (cases "progress_percent i tot") (auto simp: process_row_unfold)
  let ?w5 = "emit (Log_waiting delay) (emit (Progress p) w4)"
  from assms sl sc pp have ts: "time_sleep delay ?w5 = Done u w'"
    by (simp add: process_row_unfold)
  have "prefix (trace w) (trace w3)"
    using c send_loop_done [OF sl] by (auto simp: calm_def)
  then obtain t where t: "trace w3 = trace w @ t"
    by (auto simp: prefix_def)
  have "trace w' = trace w3 @
           [Save_checkpoint (int i + 1), Emit (Progress p), Emit (Log_waiting delay), Sleep delay]"
    using time_sleep_done [OF ts] save_checkpoint_done_trace [OF sc]
    by (simp add: emit_def act_def)
  with t pp show ?thesis by auto
qed

lemma process_row_v1_done_progress:
  assumes "process_row_v1 delay tot i r w = Done u w'"
  shows "\<exists>t p. progress_percent i tot = Inr p \<and> trace w' = trace w @ t @
           [Emit (Progress p), Emit (Log_waiting delay), Sleep delay]"
proof -
  let ?w2 = "announced_v1 r w"
  have c: "calm w ?w2" by (rule calm_announced_v1)
  from assms obtain u3 w3 where sl: "send_loop r (rendered r w) ?w2 = Done u3 w3"
    by (cases "send_loop r (rendered r w) ?w2") (auto simp: process_row_v1_unfold)
  from assms sl obtain p where pp: "progress_percent i tot = Inr p"
    by (cases "progress_percent i tot") (auto simp: process_row_v1_unfold)
  let ?w5 = "emit (Log_waiting delay) (emit (Progress p) w3)"
  from assms sl pp have ts: "time_sleep delay ?w5 = Done u w'"
    by (simp add: process_row_v1_unfold)
  have "prefix (trace w) (trace w3)"
    using c send_loop_done [OF sl] by (auto simp: calm_def)
  then obtain t where t: "trace w3 = trace w @ t"
    by (auto simp: prefix_def)
  have "trace w' = trace w3 @ [Emit (Progress p), Emit (Log_waiting delay), Sleep delay]"
    using time_sleep_done [OF ts] by (simp add: emit_def act_def)
  with t pp show ?thesis by auto
qed

text \<open>
  C7, as stated: the progress value after the row at index \<open>i\<close> is the exact percentage
  \<open>100 (i + 1) / total\<close> rounded to the nearest integer. For the second of three rows the
  program emits 66, and the nearest integer to \<open>200 / 3\<close> is 67.
\<close>

theorem progress_percent_rounding_counterexample:
  "progress_percent 1 3 = Inr 66 \<and> round (100 * of_nat (1 + 1) / of_nat 3 :: rat) = (67 :: int)"
  by code_simp

text \<open>
  C7, amended: the progress value after the row at index \<open>i\<close> is the float product
  \<^verbatim>\<open>((i + 1) / total) * 100\<close> truncated toward zero. For \<open>0 < total \<le> 2\<^sup>4\<^sup>4\<close> and
  \<open>i < total\<close> it is the floor of the exact percentage or one less than that floor, and it
  lies between 0 and 100; it is the value that the progress signal of the row carries, in
  both versions.
\<close>

theorem progress_percent_truncates:
  assumes "0 < tot" and "i < tot" and "tot \<le> 2 ^ 44"
  shows "\<exists>p. progress_percent i tot = Inr p \<and>
           \<lfloor>100 * of_nat (i + 1) / of_nat tot :: rat\<rfloor> - 1 \<le> p \<and>
           p \<le> \<lfloor>100 * of_nat (i + 1) / of_nat tot :: rat\<rfloor> \<and> 0 \<le> p \<and> p \<le> 100 \<and>
           (\<forall>delay r w u w'. process_row delay tot i r w = Done u w' \<longrightarrow>
              (\<exists>t. trace w' = trace w @ t @
                 [Save_checkpoint (int i + 1), Emit (Progress p), Emit (Log_waiting delay),
                  Sleep delay])) \<and>
           (\<forall>delay r w u w'. process_row_v1 delay tot i r w = Done u w' \<longrightarrow>
              (\<exists>t. trace w' = trace w @ t @
                 [Emit (Progress p), Emit (Log_waiting delay), Sleep delay]))"
proof -
  from progress_percent_bounds [OF assms] obtain p where p:
    "progress_percent i tot = Inr p"
    "\<lfloor>100 * of_nat (i + 1) / of_nat tot :: rat\<rfloor> - 1 \<le> p"
    "p \<le> \<lfloor>100 * of_nat (i + 1) / of_nat tot :: rat\<rfloor>" "0 \<le> p" "p \<le> 100"
    by blast
  have a: "\<exists>t. trace w' = trace w @ t @
      [Save_checkpoint (int i + 1), Emit (Progress p), Emit (Log_waiting delay), Sleep delay]"
    if "process_row delay tot i r w = Done u w'" for delay r w u w'
    using process_row_done_progress [OF that] p(1) by auto
  have b: "\<exists>t. trace w' = trace w @ t @
      [Emit (Progress p), Emit (Log_waiting delay), Sleep delay]"
    if "process_row_v1 delay tot i r w = Done u w'" for delay r w u w'
    using process_row_v1_done_progress [OF that] p(1) by auto
  show ?thesis
    using p a b by blast
qed

theorem progress_percent_truncates_witness:
  "(0::nat) < 100 \<and> (28::nat) < 100 \<and> (100::nat) \<le> 2 ^ 44 \<and>
   progress_percent 28 100 = Inr 28 \<and>
   \<lfloor>100 * of_nat (28 + 1) / of_nat 100 :: rat\<rfloor> - 1 \<le> 28 \<and>
   (0::nat) < 1 \<and> (1::nat) \<le> 2 ^ 44 \<and> progress_percent 0 1 = Inr 100 \<and>
   process_row 1 1 0 sample_row (sample_world\<lparr>pause_reads := [False], running_reads := []\<rparr>)
     = Done () (state_of (process_row 1 1 0 sample_row
                  (sample_world\<lparr>pause_reads := [False], running_reads := []\<rparr>))) \<and>
   Emit (Progress 100) \<in> set (trace (state_of (process_row 1 1 0 sample_row
                  (sample_world\<lparr>pause_reads := [False], running_reads := []\<rparr>))))"
proof -
  let ?w0 = "sample_world\<lparr>pause_reads := [False], running_reads := []\<rparr>"
  let ?x = "state_of (process_row 1 1 0 sample_row ?w0)"
  have h1: "(0::nat) < 100" and h2: "(28::nat) < 100" and h3: "(100::nat) \<le> 2 ^ 44"
    and h4: "(0::nat) < 1" and h5: "(1::nat) \<le> 2 ^ 44"
    by simp_all
  have v1: "progress_percent 28 100 = Inr 28"
    by code_simp
  have v2: "progress_percent 0 1 = Inr 100"
    by code_simp
  have p: "process_row 1 1 0 sample_row ?w0 = Done () ?x"
    by code_simp
  from progress_percent_truncates [OF h1 h2 h3] obtain q where
    q: "progress_percent 28 100 = Inr q" "\<lfloor>100 * of_nat (28 + 1) / of_nat 100 :: rat\<rfloor> - 1 \<le> q"
    by blast
  from q(1) v1 have "q = 28"
    by simp
  with q(2) have f: "\<lfloor>100 * of_nat (28 + 1) / of_nat 100 :: rat\<rfloor> - 1 \<le> 28"
    by simp
  from progress_percent_truncates [OF h4 h4 h5] obtain q' where
    q': "progress_percent 0 1 = Inr q'"
    "\<forall>delay r w u w'. process_row delay 1 0 r w = Done u w' \<longrightarrow>
              (\<exists>t. trace w' = trace w @ t @
                 [Save_checkpoint (int 0 + 1), Emit (Progress q'), Emit (Log_waiting delay),
                  Sleep delay])"
    by blast
  from q'(1) v2 have "q' = 100"
    by simp
  with q'(2) p obtain t where
    "trace ?x = trace ?w0 @ t @
       [Save_checkpoint (int 0 + 1), Emit (Progress 100), Emit (Log_waiting 1), Sleep 1]"
    by blast
  then have m: "Emit (Progress 100) \<in> set (trace ?x)"
    by simp
  show ?thesis
    by (intro conjI h1 h2 h3 h4 h5 v1 v2 f p m)
qed

section \<open>A template that cannot be read\<close>

text \<open>
  When the pause ends and the environment answers the SMTP session, the send-retry loop
  makes its first attempt with the message it was given; what follows only adds to the
  trace.
\<close>

lemma wait_pause_ends: "False \<in> set (pause_reads w) \<Longrightarrow> \<exists>w1. wait_pause w = Done () w1"
proof (induction w rule: wait_pause.induct)
  case (1 w)
  then obtain p ps where ps: "pause_reads w = p # ps"
    by (cases "pause_reads w") auto
  show ?case
  proof (cases p)
    case False
    then show ?thesis
      using ps by (subst wait_pause.simps) (simp add: read_pause_def)
  next
    case True
    then have "False \<in> set (pause_reads (act (Sleep (1 / 10)) (w\<lparr>pause_reads := ps\<rparr>)))"
      using "1.prems" ps by (simp add: act_def)
    then have "\<exists>w1. wait_pause (act (Sleep (1 / 10)) (w\<lparr>pause_reads := ps\<rparr>)) = Done () w1"
      using "1.IH" [of p "w\<lparr>pause_reads := ps\<rparr>"] ps True by (simp add: read_pause_def)
    then show ?thesis
      using ps True by (subst wait_pause.simps) (simp add: read_pause_def)
  qed
qed

lemma smtp_send_done:
  "smtp_results w \<noteq> [] \<Longrightarrow>
   \<exists>x w2. smtp_send a b c m w = Done x w2 \<and> trace w2 = trace w @ [Smtp a b c m]"
  by (cases "smtp_results w") (simp_all add: smtp_send_def act_def)

lemma send_loop_first_attempt:
  assumes "False \<in> set (pause_reads w)" and "smtp_results w \<noteq> []"
  shows "Smtp (from_email r) (password r) (to_email r) msg
           \<in> set (trace (state_of (send_loop r msg w)))"
proof -
  let ?a = "Smtp (from_email r) (password r) (to_email r) msg"
  from wait_pause_ends [OF assms(1)] obtain w1 where wp: "wait_pause w = Done () w1"
    by blast
  have "smtp_results w1 \<noteq> []"
    using wait_pause_smtp_results [OF wp] assms(2) by simp
  from smtp_send_done [OF this] obtain x w2 where
    sm: "smtp_send (from_email r) (password r) (to_email r) msg w1 = Done x w2"
    and t2: "trace w2 = trace w1 @ [?a]"
    by blast
  have in2: "?a \<in> set (trace w2)"
    using t2 by simp
  have grow: "?a \<in> set (trace w')" if "prefix (trace w2) (trace w')" for w' :: world
    using that in2 by (auto simp: prefix_def)
  show ?thesis
  proof (cases x)
    case None
    then show ?thesis
      using wp sm in2 by (subst send_loop.simps) (simp add: Let_def emit_def act_def)
  next
    case (Some error_message)
    have c3: "calm w2 (state_of (check_network w2))"
      by (rule calm_check_network)
    show ?thesis
    proof (cases "check_network w2")
      case (Pending w3)
      then show ?thesis
        using wp sm Some c3 grow [of w3] by (subst send_loop.simps) (simp add: calm_def)
    next
      case (Raised e w3)
      then show ?thesis
        by (simp add: check_network_def split: list.splits)
    next
      case cn: (Done up w3)
      then have p3: "prefix (trace w2) (trace w3)"
        using c3 by (simp add: calm_def)
      show ?thesis
      proof (cases up)
        case True
        then show ?thesis
          using wp sm Some cn grow [OF p3] by (subst send_loop.simps) (simp add: Let_def emit_def act_def)
      next
        case False
        let ?w3 = "emit (Log ''Network disconnected. Pausing email sending process. Waiting for network to be restored...'') w3"
        have c4: "calm ?w3 (state_of (wait_network ?w3))"
          by (rule wait_network_calm)
        have p3': "prefix (trace w2) (trace ?w3)"
          using p3 by (auto simp: emit_def act_def prefix_def)
        show ?thesis
        proof (cases "wait_network ?w3")
          case (Pending w4)
          then have "prefix (trace w2) (trace w4)"
            using c4 p3' by (auto simp: calm_def)
          then show ?thesis
            using wp sm Some cn False Pending grow [of w4] by (subst send_loop.simps) simp
        next
          case (Raised e w4)
          then show ?thesis
            by (simp add: wait_network_not_raised)
        next
          case wn: (Done u' w4)
          let ?w4 = "emit (Log ''Network restored. Resuming email sending process.'') w4"
          have "prefix (trace w2) (trace w4)"
            using c4 p3' wn by (auto simp: calm_def)
          then have "prefix (trace w2) (trace ?w4)"
            by (auto simp: emit_def act_def prefix_def)
          moreover have "prefix (trace ?w4) (trace (state_of (send_loop r msg ?w4)))"
            using send_loop_sent_or_failed [of r ?w4 msg] by (simp add: sent_or_failed_def)
          ultimately have "prefix (trace w2) (trace (state_of (send_loop r msg ?w4)))"
            by auto
          then show ?thesis
            using wp sm Some cn False wn grow [of "state_of (send_loop r msg ?w4)"]
            by (subst send_loop.simps) simp
        qed
      qed
    qed
  qed
qed

lemma process_row_after_send:
  "prefix (trace (state_of (send_loop r (rendered r w) (announced i r w))))
          (trace (state_of (process_row delay tot i r w)))"
proof (cases "send_loop r (rendered r w) (announced i r w)")
  case (Pending w3)
  then show ?thesis by (simp add: process_row_unfold)
next
  case (Raised e w3)
  then show ?thesis by (simp add: process_row_unfold)
next
  case sl: (Done u3 w3)
  have s4: "prefix (trace w3) (trace (state_of (save_checkpoint (int i + 1) w3)))"
    using save_checkpoint_step [of "int i + 1" w3] by simp
  show ?thesis
  proof (cases "save_checkpoint (int i + 1) w3")
    case (Pending w4)
    then show ?thesis using sl s4 by (simp add: process_row_unfold)
  next
    case (Raised e w4)
    then show ?thesis using sl s4 by (simp add: process_row_unfold)
  next
    case sc: (Done u4 w4)
    show ?thesis
    proof (cases "progress_percent i tot")
      case (Inl e)
      then show ?thesis using sl sc s4 by (simp add: process_row_unfold)
    next
      case (Inr p)
      let ?w5 = "emit (Log_waiting delay) (emit (Progress p) w4)"
      have "prefix (trace w4) (trace ?w5)"
        by (simp add: emit_def act_def)
      moreover have "prefix (trace ?w5) (trace (state_of (time_sleep delay ?w5)))"
        using time_sleep_calm [of ?w5 delay] by (simp add: calm_def)
      ultimately have "prefix (trace w3) (trace (state_of (time_sleep delay ?w5)))"
        using s4 sc by auto
      then show ?thesis using sl sc Inr by (simp add: process_row_unfold)
    qed
  qed
qed

lemma process_row_v1_after_send:
  "prefix (trace (state_of (send_loop r (rendered r w) (announced_v1 r w))))
          (trace (state_of (process_row_v1 delay tot i r w)))"
proof (cases "send_loop r (rendered r w) (announced_v1 r w)")
  case (Pending w3)
  then show ?thesis by (simp add: process_row_v1_unfold)
next
  case (Raised e w3)
  then show ?thesis by (simp add: process_row_v1_unfold)
next
  case sl: (Done u3 w3)
  show ?thesis
  proof (cases "progress_percent i tot")
    case (Inl e)
    then show ?thesis using sl by (simp add: process_row_v1_unfold)
  next
    case (Inr p)
    let ?w5 = "emit (Log_waiting delay) (emit (Progress p) w3)"
    have "prefix (trace w3) (trace ?w5)"
      by (simp add: emit_def act_def)
    moreover have "prefix (trace ?w5) (trace (state_of (time_sleep delay ?w5)))"
      using time_sleep_calm [of ?w5 delay] by (simp add: calm_def)
    ultimately have "prefix (trace w3) (trace (state_of (time_sleep delay ?w5)))"
      by auto
    then show ?thesis using sl Inr by (simp add: process_row_v1_unfold)
  qed
qed

text \<open>
  \<open>sleep_ok d\<close>: the length \<open>d\<close> is one that \<^verbatim>\<open>time.sleep\<close> accepts. Every delay from 0 to
  \<open>4 \<cdot> 10\<^sup>6\<close> seconds is.
\<close>

definition sleep_ok :: "rat \<Rightarrow> bool" where
  "sleep_ok d \<longleftrightarrow> 0 \<le> sleep_length_ns d \<and> sleep_length_ns d < 2 ^ 63"

lemma time_sleep_raised: "time_sleep d w = Raised e w' \<Longrightarrow> \<not> sleep_ok d"
  by (auto simp: time_sleep_def sleep_ok_def Let_def split: if_splits)

lemma time_sleep_ok: "sleep_ok d \<Longrightarrow> time_sleep d w = Done () (act (Sleep d) w)"
  by (auto simp: time_sleep_def sleep_ok_def Let_def)

lemma sleep_ok_range:
  assumes "0 \<le> d" and "d \<le> 4 * 10 ^ 6"
  shows "sleep_ok d"
proof (cases "d = 0")
  case True
  then show ?thesis
    by (simp add: sleep_ok_def sleep_length_ns_def round_away_def round_binary64_def)
next
  case False
  define q where "q = d * 10 ^ 9"
  define f where "f = round_binary64 q"
  have q: "0 < q" "q \<le> 4 * 10 ^ 15"
    using assms False by (simp_all add: q_def)
  define h where "h = q / 2 ^ 53"
  have "\<bar>f - q\<bar> \<le> h"
    unfolding f_def h_def using q(1) by (rule round_binary64_error)
  then have e: "f - q \<le> h" "q - f \<le> h"
    by linarith+
  have h: "h \<le> q"
    using q(1) by (simp add: h_def field_simps)
  have f: "0 \<le> f" "f \<le> 8 * 10 ^ 15"
    using e h q(2) by linarith+
  have "\<lceil>f\<rceil> \<le> 8 * 10 ^ 15"
    using f(2) by (simp add: ceiling_le_iff)
  moreover have "0 \<le> \<lceil>f\<rceil>"
    using f(1) by simp
  ultimately show ?thesis
    using f(1) by (simp add: sleep_ok_def sleep_length_ns_def round_away_def q_def f_def)
qed

lemma process_row_raised:
  assumes "process_row delay tot i r w = Raised e w'"
  shows "(\<exists>x. e = OSError x) \<or> \<not> sleep_ok delay \<or> tot = 0"
  using assms send_loop_not_raised
  by (auto simp: process_row_unfold save_checkpoint_def progress_percent_def Let_def
      split: result.splits sum.splits list.splits option.splits if_splits
      dest: time_sleep_raised)

lemma process_row_v1_raised:
  assumes "process_row_v1 delay tot i r w = Raised e w'"
  shows "\<not> sleep_ok delay \<or> tot = 0"
  using assms send_loop_not_raised
  by (auto simp: process_row_v1_unfold progress_percent_def Let_def
      split: result.splits sum.splits if_splits dest: time_sleep_raised)

lemma process_row_raised_cause:
  assumes "process_row delay tot i r w = Raised e w'"
  shows "(\<exists>x. Some x \<in> set (save_results w)) \<or> \<not> sleep_ok delay \<or> tot = 0"
proof -
  let ?w2 = "announced i r w"
  have s2: "save_results ?w2 = save_results w"
    by (simp add: announced_def emit_def act_def)
  from assms obtain u3 w3 where sl: "send_loop r (rendered r w) ?w2 = Done u3 w3"
    using send_loop_not_raised
    by (cases "send_loop r (rendered r w) ?w2") (auto simp: process_row_unfold)
  have s3: "save_results w3 = save_results w"
    using send_loop_done [OF sl] s2 by simp
  show ?thesis
  proof (cases "save_checkpoint (int i + 1) w3")
    case (Pending w4)
    then show ?thesis using assms sl by (simp add: process_row_unfold)
  next
    case (Raised e4 w4)
    then have "\<exists>x. Some x \<in> set (save_results w3)"
      by (auto simp: save_checkpoint_def Let_def split: list.splits option.splits)
    then show ?thesis using s3 by simp
  next
    case (Done u4 w4)
    then show ?thesis
      using assms sl
      by (auto simp: process_row_unfold progress_percent_def
          split: sum.splits if_splits dest: time_sleep_raised)
  qed
qed

text \<open>
  C8: when the template of a row cannot be opened or read, \<^verbatim>\<open>load_html_content\<close> returns
  \<^verbatim>\<open>Error loading HTML file: \<close> followed by the text of the exception, whatever the
  salutation and the signature; that text is the body of the message built for the row;
  when the pause ends and the environment answers, an SMTP session with this message is in
  the trace of the row, in both versions; and with a delay from 0 to \<open>4 \<cdot> 10\<^sup>6\<close> seconds (a
  length that \<^verbatim>\<open>time.sleep\<close> accepts), a total that is not zero and (version 1.2) no
  failing write of the checkpoint, the row does not raise.
\<close>

theorem unreadable_template_is_sent_as_body:
  assumes "open_read (html_files w) (html_file r) = Inl m"
  shows "load_html_content (html_files w) (html_file r) s g = ''Error loading HTML file: '' @ m \<and>
         msg_body (rendered r w) = ''Error loading HTML file: '' @ m \<and>
         (False \<in> set (pause_reads w) \<and> smtp_results w \<noteq> [] \<longrightarrow>
            Smtp (from_email r) (password r) (to_email r) (rendered r w)
              \<in> set (trace (state_of (process_row delay tot i r w))) \<and>
            Smtp (from_email r) (password r) (to_email r) (rendered r w)
              \<in> set (trace (state_of (process_row_v1 delay tot i r w)))) \<and>
         (0 \<le> delay \<and> delay \<le> 4 * 10 ^ 6 \<and> 0 < tot \<and>
          (\<forall>x. Some x \<notin> set (save_results w)) \<longrightarrow>
            (\<forall>e w'. process_row delay tot i r w \<noteq> Raised e w')) \<and>
         (0 \<le> delay \<and> delay \<le> 4 * 10 ^ 6 \<and> 0 < tot \<longrightarrow>
            (\<forall>e w'. process_row_v1 delay tot i r w \<noteq> Raised e w'))"
proof (intro conjI impI allI)
  show "load_html_content (html_files w) (html_file r) s g = ''Error loading HTML file: '' @ m"
    using assms by (simp add: load_html_content_def)
  show "msg_body (rendered r w) = ''Error loading HTML file: '' @ m"
    using assms by (simp add: rendered_def build_message_def load_html_content_def)
next
  assume a: "False \<in> set (pause_reads w) \<and> smtp_results w \<noteq> []"
  let ?a = "Smtp (from_email r) (password r) (to_email r) (rendered r w)"
  have "False \<in> set (pause_reads (announced i r w))" "smtp_results (announced i r w) \<noteq> []"
    using a by (simp_all add: announced_def emit_def act_def)
  then have "?a \<in> set (trace (state_of (send_loop r (rendered r w) (announced i r w))))"
    by (rule send_loop_first_attempt)
  then show "?a \<in> set (trace (state_of (process_row delay tot i r w)))"
    using process_row_after_send [of r w i delay tot] by (auto simp: prefix_def)
  have "False \<in> set (pause_reads (announced_v1 r w))" "smtp_results (announced_v1 r w) \<noteq> []"
    using a by (simp_all add: announced_v1_def emit_def act_def)
  then have "?a \<in> set (trace (state_of (send_loop r (rendered r w) (announced_v1 r w))))"
    by (rule send_loop_first_attempt)
  then show "?a \<in> set (trace (state_of (process_row_v1 delay tot i r w)))"
    using process_row_v1_after_send [of r w delay tot i] by (auto simp: prefix_def)
next
  fix e w'
  assume a: "0 \<le> delay \<and> delay \<le> 4 * 10 ^ 6 \<and> 0 < tot \<and>
    (\<forall>x. Some x \<notin> set (save_results w))"
  then have "sleep_ok delay"
    by (simp add: sleep_ok_range)
  with a show "process_row delay tot i r w \<noteq> Raised e w'"
    using process_row_raised_cause [of delay tot i r w e w'] by auto
next
  fix e w'
  assume a: "0 \<le> delay \<and> delay \<le> 4 * 10 ^ 6 \<and> 0 < tot"
  then have "sleep_ok delay"
    by (simp add: sleep_ok_range)
  with a show "process_row_v1 delay tot i r w \<noteq> Raised e w'"
    using process_row_v1_raised [of delay tot i r w e w'] by auto
qed

theorem unreadable_template_is_sent_as_body_witness:
  "open_read (html_files (sample_world\<lparr>html_files := [], pause_reads := [False], running_reads := []\<rparr>))
     (html_file sample_row)
     = Inl (''[Errno 2] No such file or directory: '' @ [CHR 0x27] @ ''body.html'' @ [CHR 0x27]) \<and>
   False \<in> set (pause_reads (sample_world\<lparr>html_files := [], pause_reads := [False], running_reads := []\<rparr>)) \<and>
   smtp_results (sample_world\<lparr>html_files := [], pause_reads := [False], running_reads := []\<rparr>) \<noteq> [] \<and>
   (0::rat) \<le> 1 \<and> (1::rat) \<le> 4 * 10 ^ 6 \<and> (0::nat) < 1 \<and>
   (\<forall>x. Some x \<notin> set (save_results (sample_world\<lparr>html_files := [], pause_reads := [False], running_reads := []\<rparr>))) \<and>
   Smtp ''ann@example.com'' ''secret'' ''jane@example.com''
     \<lparr>msg_subject = ''Hello'', msg_from = ''Ann <ann@example.com>'', msg_to = ''jane@example.com'',
      msg_body = ''Error loading HTML file: [Errno 2] No such file or directory: ''
                   @ [CHR 0x27] @ ''body.html'' @ [CHR 0x27]\<rparr>
     \<in> set (trace (state_of (process_row 1 1 0 sample_row
           (sample_world\<lparr>html_files := [], pause_reads := [False], running_reads := []\<rparr>)))) \<and>
   process_row 1 1 0 sample_row
       (sample_world\<lparr>html_files := [], pause_reads := [False], running_reads := []\<rparr>)
     = Done () (state_of (process_row 1 1 0 sample_row
           (sample_world\<lparr>html_files := [], pause_reads := [False], running_reads := []\<rparr>)))"
proof -
  let ?w = "sample_world\<lparr>html_files := [], pause_reads := [False], running_reads := []\<rparr>"
  let ?m = "''[Errno 2] No such file or directory: '' @ [CHR 0x27] @ ''body.html'' @ [CHR 0x27]"
  have h1: "open_read (html_files ?w) (html_file sample_row) = Inl ?m"
    by (simp add: sample_world_def sample_row_def open_read_def py_repr_def repr_char_def Let_def)
  have h2: "False \<in> set (pause_reads ?w)" and h3: "smtp_results ?w \<noteq> []"
    and h6: "\<forall>x. Some x \<notin> set (save_results ?w)"
    by (simp_all add: sample_world_def)
  have h4: "(0::rat) \<le> 1" and h5: "(0::nat) < 1" and h7: "(1::rat) \<le> 4 * 10 ^ 6"
    by simp_all
  have p: "process_row 1 1 0 sample_row ?w = Done () (state_of (process_row 1 1 0 sample_row ?w))"
    by code_simp
  note t = unreadable_template_is_sent_as_body [OF h1, of "sal sample_row" "signature sample_row" 1 1 0]
  from t have b: "msg_body (rendered sample_row ?w) = ''Error loading HTML file: '' @ ?m"
    by blast
  have r: "rendered sample_row ?w =
      \<lparr>msg_subject = ''Hello'', msg_from = ''Ann <ann@example.com>'', msg_to = ''jane@example.com'',
       msg_body = ''Error loading HTML file: '' @ ?m\<rparr>"
    using b by (simp add: rendered_def build_message_def sample_row_def)
  from t h2 h3 have "Smtp (from_email sample_row) (password sample_row) (to_email sample_row)
      (rendered sample_row ?w) \<in> set (trace (state_of (process_row 1 1 0 sample_row ?w)))"
    by blast
  then have m: "Smtp ''ann@example.com'' ''secret'' ''jane@example.com''
     \<lparr>msg_subject = ''Hello'', msg_from = ''Ann <ann@example.com>'', msg_to = ''jane@example.com'',
      msg_body = ''Error loading HTML file: [Errno 2] No such file or directory: ''
                   @ [CHR 0x27] @ ''body.html'' @ [CHR 0x27]\<rparr>
     \<in> set (trace (state_of (process_row 1 1 0 sample_row ?w)))"
    unfolding r by (simp add: sample_row_def)
  show ?thesis
    by (intro conjI h1 h2 h3 h4 h7 h5 h6 m p)
qed

section \<open>Network outage\<close>

text \<open>
  The actions of one outage in the send-retry loop: \<open>p\<close> polls of the pause flag that
  find it set, the SMTP session that fails, the probe that finds the network down, the
  notice, \<open>k\<close> more probes that find it down with a sleep of 5 seconds after each, the
  probe that finds it up, the notice.
\<close>

definition outage_trace :: "row \<Rightarrow> message \<Rightarrow> nat \<Rightarrow> nat \<Rightarrow> action list" where
  "outage_trace r msg p k =
     replicate p (Sleep (1 / 10)) @
     [Smtp (from_email r) (password r) (to_email r) msg, Check_network,
      Emit (Log ''Network disconnected. Pausing email sending process. Waiting for network to be restored...'')] @
     concat (replicate k [Check_network, Sleep 5]) @
     [Check_network, Emit (Log ''Network restored. Resuming email sending process.'')]"

lemma wait_pause_script:
  "pause_reads w = replicate p True @ False # ps \<Longrightarrow>
   wait_pause w = Done () (w\<lparr>pause_reads := ps, trace := trace w @ replicate p (Sleep (1 / 10))\<rparr>)"
proof (induction p arbitrary: w)
  case 0
  then show ?case
    by (subst wait_pause.simps) (simp add: read_pause_def)
next
  case (Suc p)
  let ?w1 = "act (Sleep (1 / 10)) (w\<lparr>pause_reads := replicate p True @ False # ps\<rparr>)"
  have "pause_reads ?w1 = replicate p True @ False # ps"
    by (simp add: act_def)
  from Suc.IH [OF this] have
    "wait_pause ?w1 = Done () (w\<lparr>pause_reads := ps,
        trace := trace w @ Sleep (1 / 10) # replicate p (Sleep (1 / 10))\<rparr>)"
    by (simp add: act_def)
  then show ?case
    using Suc.prems by (subst wait_pause.simps) (simp add: read_pause_def replicate_app_Cons_same)
qed

lemma wait_network_script:
  "network_results w = replicate k False @ True # ns \<Longrightarrow>
   wait_network w = Done () (w\<lparr>network_results := ns,
      trace := trace w @ concat (replicate k [Check_network, Sleep 5]) @ [Check_network]\<rparr>)"
proof (induction k arbitrary: w)
  case 0
  then show ?case
    by (subst wait_network.simps) (simp add: check_network_def act_def)
next
  case (Suc k)
  let ?w1 = "act (Sleep 5) (act Check_network (w\<lparr>network_results := replicate k False @ True # ns\<rparr>))"
  have "network_results ?w1 = replicate k False @ True # ns"
    by (simp add: act_def)
  from Suc.IH [OF this] have
    "wait_network ?w1 = Done () (w\<lparr>network_results := ns,
        trace := trace w @ [Check_network, Sleep 5] @ concat (replicate k [Check_network, Sleep 5])
                   @ [Check_network]\<rparr>)"
    by (simp add: act_def)
  then show ?case
    using Suc.prems by (subst wait_network.simps) (simp add: check_network_def act_def)
qed

lemma send_loop_outage:
  assumes "pause_reads w = replicate p True @ False # ps"
    and "smtp_results w = Some e # rs"
    and "network_results w = False # replicate k False @ True # ns"
  shows "send_loop r msg w =
           send_loop r msg (w\<lparr>pause_reads := ps, smtp_results := rs, network_results := ns,
                              trace := trace w @ outage_trace r msg p k\<rparr>)"
proof -
  let ?w1 = "w\<lparr>pause_reads := ps, trace := trace w @ replicate p (Sleep (1 / 10))\<rparr>"
  have wp: "wait_pause w = Done () ?w1"
    using assms(1) by (rule wait_pause_script)
  let ?w2 = "act (Smtp (from_email r) (password r) (to_email r) msg) (?w1\<lparr>smtp_results := rs\<rparr>)"
  have sm: "smtp_send (from_email r) (password r) (to_email r) msg ?w1 = Done (Some e) ?w2"
    using assms(2) by (simp add: smtp_send_def)
  let ?w3 = "act Check_network (?w2\<lparr>network_results := replicate k False @ True # ns\<rparr>)"
  have cn: "check_network ?w2 = Done False ?w3"
    using assms(3) by (simp add: check_network_def act_def)
  let ?w3' = "emit (Log ''Network disconnected. Pausing email sending process. Waiting for network to be restored...'') ?w3"
  have "network_results ?w3' = replicate k False @ True # ns"
    by (simp add: emit_def act_def)
  from wait_network_script [OF this] obtain w4 where
    wn: "wait_network ?w3' = Done () w4"
    and w4: "w4 = ?w3'\<lparr>network_results := ns,
      trace := trace ?w3' @ concat (replicate k [Check_network, Sleep 5]) @ [Check_network]\<rparr>"
    by blast
  have "send_loop r msg w =
          send_loop r msg (emit (Log ''Network restored. Resuming email sending process.'') w4)"
    using wp sm cn wn by (subst send_loop.simps) simp
  moreover have "emit (Log ''Network restored. Resuming email sending process.'') w4 =
      w\<lparr>pause_reads := ps, smtp_results := rs, network_results := ns,
        trace := trace w @ outage_trace r msg p k\<rparr>"
    unfolding w4 by (simp add: emit_def act_def outage_trace_def)
  ultimately show ?thesis
    by simp
qed

text \<open>
  A sequence of outages is given by one triple \<open>(p, e, k)\<close> for each: the number of polls
  that find the worker paused before the attempt, the text of the exception of the SMTP
  session, and the number of further probes that find the network down. The answers of the
  environment for such a sequence, and the actions of the worker in it:
\<close>

definition pause_script :: "(nat \<times> string \<times> nat) list \<Rightarrow> bool list" where
  "pause_script rounds = concat (map (\<lambda>(p, e, k). replicate p True @ [False]) rounds)"

definition smtp_script :: "(nat \<times> string \<times> nat) list \<Rightarrow> string option list" where
  "smtp_script rounds = map (\<lambda>(p, e, k). Some e) rounds"

definition network_script :: "(nat \<times> string \<times> nat) list \<Rightarrow> bool list" where
  "network_script rounds = concat (map (\<lambda>(p, e, k). False # replicate k False @ [True]) rounds)"

definition outages_trace :: "row \<Rightarrow> message \<Rightarrow> (nat \<times> string \<times> nat) list \<Rightarrow> action list" where
  "outages_trace r msg rounds = concat (map (\<lambda>(p, e, k). outage_trace r msg p k) rounds)"

lemma send_loop_outages:
  assumes "pause_reads w = pause_script rounds @ ps"
    and "smtp_results w = smtp_script rounds @ rs"
    and "network_results w = network_script rounds @ ns"
  shows "send_loop r msg w =
           send_loop r msg (w\<lparr>pause_reads := ps, smtp_results := rs, network_results := ns,
                              trace := trace w @ outages_trace r msg rounds\<rparr>)"
  using assms
proof (induction rounds arbitrary: w)
  case Nil
  then have e: "ps = pause_reads w" "rs = smtp_results w" "ns = network_results w"
    by (simp_all add: pause_script_def smtp_script_def network_script_def)
  show ?case
    unfolding e by (simp add: outages_trace_def)
next
  case (Cons a rounds)
  obtain p e k where a: "a = (p, e, k)"
    by (cases a)
  let ?w1 = "w\<lparr>pause_reads := pause_script rounds @ ps, smtp_results := smtp_script rounds @ rs,
                network_results := network_script rounds @ ns,
                trace := trace w @ outage_trace r msg p k\<rparr>"
  have "send_loop r msg w = send_loop r msg ?w1"
    using Cons.prems a
    by (intro send_loop_outage [where e = e])
       (simp_all add: pause_script_def smtp_script_def network_script_def)
  also have "\<dots> = send_loop r msg (?w1\<lparr>pause_reads := ps, smtp_results := rs, network_results := ns,
                              trace := trace ?w1 @ outages_trace r msg rounds\<rparr>)"
    by (rule Cons.IH) simp_all
  finally show ?case
    using a by (simp add: outages_trace_def)
qed

lemma send_loop_no_answer:
  assumes "smtp_results w = []"
  shows "\<exists>w'. send_loop r msg w = Pending w' \<and> failed_emails w' = failed_emails w \<and>
           sent_count w' = sent_count w"
proof (cases "wait_pause w")
  case (Pending w1)
  then show ?thesis
    using wait_pause_calm [of w] by (subst send_loop.simps) (simp add: calm_def)
next
  case (Raised e w1)
  then show ?thesis by (simp add: wait_pause_not_raised)
next
  case (Done u w1)
  then have "smtp_results w1 = []" and "calm w w1"
    using wait_pause_smtp_results [OF Done] assms wait_pause_calm [of w] by simp_all
  then show ?thesis
    using Done by (subst send_loop.simps) (simp add: smtp_send_def calm_def)
qed

lemma send_loop_success:
  assumes "pause_reads w = False # ps" and "smtp_results w = None # rs"
  shows "send_loop r msg w =
           Done () (w\<lparr>pause_reads := ps, smtp_results := rs, sent_count := sent_count w + 1,
                      trace := trace w @
                        [Smtp (from_email r) (password r) (to_email r) msg,
                         Emit (Log ''Email sent successfully!''),
                         Emit (Emails_sent (sent_count w + 1))]\<rparr>)"
proof -
  have wp: "wait_pause w = Done () (w\<lparr>pause_reads := ps\<rparr>)"
    using wait_pause_script [of w 0 ps] assms(1) by simp
  show ?thesis
    using wp assms(2)
    by (subst send_loop.simps) (simp add: smtp_send_def emit_def act_def Let_def)
qed

text \<open>
  C4: whatever the number of outages in a row (an SMTP session that fails while the probe
  finds the network down, then probes every 5 seconds until it is up), the send-retry loop
  is afterwards at its top again with the same row and the same message: the failure list
  and the sent count are as before, the trace has grown by the actions of the outages, none
  of which is a failure notice. If the environment has no further answer for the SMTP
  session, the loop is still waiting, with the same failure list and sent count; if the next
  session succeeds, the loop returns with the sent count one higher and the failure list
  unchanged.
\<close>

theorem network_outage_retries_same_row:
  assumes "pause_reads w = pause_script rounds @ ps"
    and "smtp_results w = smtp_script rounds @ rs"
    and "network_results w = network_script rounds @ ns"
  shows "send_loop r msg w =
           send_loop r msg (w\<lparr>pause_reads := ps, smtp_results := rs, network_results := ns,
                              trace := trace w @ outages_trace r msg rounds\<rparr>) \<and>
         (rs = [] \<longrightarrow>
            (\<exists>w'. send_loop r msg w = Pending w' \<and> failed_emails w' = failed_emails w \<and>
               sent_count w' = sent_count w)) \<and>
         (\<forall>ps' rs'. ps = False # ps' \<and> rs = None # rs' \<longrightarrow>
            send_loop r msg w =
              Done () (w\<lparr>pause_reads := ps', smtp_results := rs', network_results := ns,
                         sent_count := sent_count w + 1,
                         trace := trace w @ outages_trace r msg rounds @
                           [Smtp (from_email r) (password r) (to_email r) msg,
                            Emit (Log ''Email sent successfully!''),
                            Emit (Emails_sent (sent_count w + 1))]\<rparr>))"
proof -
  let ?wn = "w\<lparr>pause_reads := ps, smtp_results := rs, network_results := ns,
                trace := trace w @ outages_trace r msg rounds\<rparr>"
  have eq: "send_loop r msg w = send_loop r msg ?wn"
    using assms by (rule send_loop_outages)
  have pend: "\<exists>w'. send_loop r msg w = Pending w' \<and> failed_emails w' = failed_emails w \<and>
               sent_count w' = sent_count w" if "rs = []"
    using send_loop_no_answer [of ?wn r msg] that eq by simp
  have succ: "send_loop r msg w =
              Done () (w\<lparr>pause_reads := ps', smtp_results := rs', network_results := ns,
                         sent_count := sent_count w + 1,
                         trace := trace w @ outages_trace r msg rounds @
                           [Smtp (from_email r) (password r) (to_email r) msg,
                            Emit (Log ''Email sent successfully!''),
                            Emit (Emails_sent (sent_count w + 1))]\<rparr>)"
    if "ps = False # ps' \<and> rs = None # rs'" for ps' rs'
    using send_loop_success [of ?wn ps' rs' r msg] that eq by simp
  show ?thesis
    using eq pend succ by blast
qed


theorem network_outage_retries_same_row_witness:
  "pause_reads (sample_world\<lparr>pause_reads := [False, False],
       smtp_results := [Some ''timed out'', None], network_results := [False, False, True]\<rparr>)
     = pause_script [(0, ''timed out'', 1)] @ [False] \<and>
   smtp_results (sample_world\<lparr>pause_reads := [False, False],
       smtp_results := [Some ''timed out'', None], network_results := [False, False, True]\<rparr>)
     = smtp_script [(0, ''timed out'', 1)] @ [None] \<and>
   network_results (sample_world\<lparr>pause_reads := [False, False],
       smtp_results := [Some ''timed out'', None], network_results := [False, False, True]\<rparr>)
     = network_script [(0, ''timed out'', 1)] @ [] \<and>
   send_loop sample_row (rendered sample_row sample_world)
     (sample_world\<lparr>pause_reads := [False, False],
        smtp_results := [Some ''timed out'', None], network_results := [False, False, True]\<rparr>)
     = Done () (sample_world\<lparr>pause_reads := [], smtp_results := [], network_results := [],
         sent_count := 1,
         trace := outages_trace sample_row (rendered sample_row sample_world) [(0, ''timed out'', 1)] @
           [Smtp (from_email sample_row) (password sample_row) (to_email sample_row)
              (rendered sample_row sample_world),
            Emit (Log ''Email sent successfully!''), Emit (Emails_sent 1)]\<rparr>) \<and>
   failed_emails sample_world = []"
proof -
  let ?w = "sample_world\<lparr>pause_reads := [False, False],
       smtp_results := [Some ''timed out'', None], network_results := [False, False, True]\<rparr>"
  have h1: "pause_reads ?w = pause_script [(0, ''timed out'', 1)] @ [False]"
    by (simp add: pause_script_def)
  have h2: "smtp_results ?w = smtp_script [(0, ''timed out'', 1)] @ [None]"
    by (simp add: smtp_script_def)
  have h3: "network_results ?w = network_script [(0, ''timed out'', 1)] @ []"
    by (simp add: network_script_def)
  have f: "failed_emails sample_world = []" and c: "sent_count sample_world = 0"
    and t: "trace sample_world = []"
    by (simp_all add: sample_world_def)
  note n = network_outage_retries_same_row
    [OF h1 h2 h3, of sample_row "rendered sample_row sample_world"]
  from n have "send_loop sample_row (rendered sample_row sample_world) ?w =
      Done () (?w\<lparr>pause_reads := [], smtp_results := [], network_results := [],
         sent_count := sent_count ?w + 1,
         trace := trace ?w @
           outages_trace sample_row (rendered sample_row sample_world) [(0, ''timed out'', 1)] @
           [Smtp (from_email sample_row) (password sample_row) (to_email sample_row)
              (rendered sample_row sample_world),
            Emit (Log ''Email sent successfully!''), Emit (Emails_sent (sent_count ?w + 1))]\<rparr>)"
    by blast
  then have d: "send_loop sample_row (rendered sample_row sample_world) ?w
     = Done () (sample_world\<lparr>pause_reads := [], smtp_results := [], network_results := [],
         sent_count := 1,
         trace := outages_trace sample_row (rendered sample_row sample_world) [(0, ''timed out'', 1)] @
           [Smtp (from_email sample_row) (password sample_row) (to_email sample_row)
              (rendered sample_row sample_world),
            Emit (Log ''Email sent successfully!''), Emit (Emails_sent 1)]\<rparr>)"
    using c t by simp
  show ?thesis
    by (intro conjI h1 h2 h3 d f)
qed

section \<open>Where an exception can come from\<close>

text \<open>
  \<^verbatim>\<open>time.sleep(self.delay)\<close> stands outside every \<^verbatim>\<open>try\<close> in both versions, and so do the
  two checkpoint functions in version 1.2; every other call that can fail stands in a
  \<^verbatim>\<open>try\<close>. With a delay that \<^verbatim>\<open>time.sleep\<close> accepts, version 1 never raises, and version
  1.2 raises nothing but the \<^verbatim>\<open>OSError\<close> of its two checkpoint functions.
\<close>

lemma run_loop_raised:
  "run_loop delay tot c i rs w = Raised e w' \<Longrightarrow>
   (\<exists>x. e = OSError x) \<or> \<not> sleep_ok delay \<or> tot = 0"
proof (induction rs arbitrary: i w)
  case Nil
  then show ?case by simp
next
  case (Cons r rest)
  show ?case
  proof (cases "int i < c")
    case True
    then show ?thesis
      using Cons.prems Cons.IH [of "Suc i" w] by simp
  next
    case False
    from Cons.prems False obtain u1 w1 where wp: "wait_pause w = Done u1 w1"
      using wait_pause_not_raised by (cases "wait_pause w") auto
    from Cons.prems False wp obtain b w2 where rr: "read_running w1 = Done b w2"
      using read_running_not_raised by (cases "read_running w1") auto
    from Cons.prems False wp rr have b: b
      by (cases b) auto
    show ?thesis
    proof (cases "process_row delay tot i r w2")
      case (Done u3 w3)
      then show ?thesis
        using Cons.prems False wp rr b Cons.IH [of "Suc i" w3] by simp
    next
      case (Raised e3 w3)
      then have "e3 = e"
        using Cons.prems False wp rr b by simp
      then show ?thesis
        using process_row_raised [OF Raised] by simp
    next
      case (Pending w3)
      then show ?thesis
        using Cons.prems False wp rr b by simp
    qed
  qed
qed

lemma run_loop_v1_raised:
  "run_loop_v1 delay tot i rs w = Raised e w' \<Longrightarrow> \<not> sleep_ok delay \<or> tot = 0"
proof (induction rs arbitrary: i w)
  case Nil
  then show ?case by simp
next
  case (Cons r rest)
  from Cons.prems obtain u1 w1 where wp: "wait_pause w = Done u1 w1"
    using wait_pause_not_raised by (cases "wait_pause w") auto
  from Cons.prems wp obtain b w2 where rr: "read_running w1 = Done b w2"
    using read_running_not_raised by (cases "read_running w1") auto
  from Cons.prems wp rr have b: b
    by (cases b) auto
  show ?case
  proof (cases "process_row_v1 delay tot i r w2")
    case (Done u3 w3)
    then show ?thesis
      using Cons.prems wp rr b Cons.IH [of "Suc i" w3] by simp
  next
    case (Raised e3 w3)
    then show ?thesis
      using process_row_v1_raised [OF Raised] by simp
  next
    case (Pending w3)
    then show ?thesis
      using Cons.prems wp rr b by simp
  qed
qed

lemma load_checkpoint_error: "load_checkpoint f = Inl e \<Longrightarrow> \<exists>x. e = OSError x"
  by (auto simp: load_checkpoint_def split: ckfile.splits option.splits)

lemma run_raises_only_os_error:
  assumes "sleep_ok delay" and "start_sending delay w = Raised e w'"
  shows "\<exists>x. e = OSError x"
proof (cases "excel w")
  case (Inl m)
  then show ?thesis
    using assms(2) by (simp add: start_sending_def run_def init_worker_def)
next
  case (Inr df)
  show ?thesis
  proof (cases "find (\<lambda>col. col \<notin> set (columns df)) required_columns")
    case (Some col)
    then show ?thesis
      using assms(2) Inr by (simp add: start_sending_def run_def init_worker_def)
  next
    case None
    show ?thesis
    proof (cases "load_checkpoint (checkpoint_file w)")
      case (Inl e0)
      then have "e = e0"
        using assms(2) Inr None by (simp add: start_sending_def run_def init_worker_def Let_def emit_def act_def)
      then show ?thesis
        using load_checkpoint_error [OF Inl] by simp
    next
      case c: (Inr c)
      let ?l = "run_loop delay (length (rows df)) c 0 (rows df) (started c df w)"
      show ?thesis
      proof (cases ?l)
        case (Done u4 w4)
        then show ?thesis
          using assms(2) finish_not_raised by (simp add: start_sending_unfold [OF Inr None c])
      next
        case (Pending w4)
        then show ?thesis
          using assms(2) by (simp add: start_sending_unfold [OF Inr None c])
      next
        case (Raised e4 w4)
        then have e4: "e4 = e"
          using assms(2) by (simp add: start_sending_unfold [OF Inr None c])
        have "rows df \<noteq> []"
          using Raised by auto
        then show ?thesis
          using run_loop_raised [OF Raised] assms(1) e4 by simp
      qed
    qed
  qed
qed

lemma run_v1_never_raises:
  assumes "sleep_ok delay"
  shows "start_sending_v1 delay w \<noteq> Raised e w'"
proof (cases "excel w")
  case (Inl m)
  then show ?thesis
    by (simp add: start_sending_v1_def run_v1_def init_worker_def)
next
  case (Inr df)
  show ?thesis
  proof (cases "find (\<lambda>col. col \<notin> set (columns df)) required_columns")
    case (Some col)
    then show ?thesis
      using Inr by (simp add: start_sending_v1_def run_v1_def init_worker_def)
  next
    case None
    let ?l = "run_loop_v1 delay (length (rows df)) 0 (rows df) (started_v1 df w)"
    show ?thesis
    proof (cases ?l)
      case (Done u4 w4)
      then show ?thesis
        using finish_not_raised by (simp add: start_sending_v1_unfold [OF Inr None])
    next
      case (Pending w4)
      then show ?thesis
        by (simp add: start_sending_v1_unfold [OF Inr None])
    next
      case (Raised e4 w4)
      have "rows df \<noteq> []"
        using Raised by auto
      then show ?thesis
        using run_loop_v1_raised [OF Raised] assms by simp
    qed
  qed
qed

end
